theory Spec2Isabelle
  imports Complex_Main "HOL-Library.Multiset" "HOL-Library.Sublist"
begin

section \<open>A shallow embedding of the k-d tree of kdtree.go\<close>

text \<open>
  The package is written against interfaces: the points (\<open>Comparable\<close>, optionally
  \<open>Extender\<close>) and the point source of a bulk construction (\<open>Interface\<close>, optionally
  \<open>Bounder\<close>) are supplied by the caller. The embedding keeps that shape: every function
  of the package takes the interface methods as a parameter and is otherwise a transcription
  of the Go function of the same name.

  \<^item> \<open>float64\<close> is modelled by the reals, extended by \<open>+Inf\<close> where the code uses
    \<open>math.Inf(1)\<close> (type \<open>edist\<close>); rounding, NaN and overflow are not modelled.
  \<^item> \<open>int\<close> and \<open>Dim\<close> are modelled by the unbounded integers.
  \<^item> A \<open>*Node\<close> is a value of the datatype \<open>node\<close>, the nil pointer being \<open>nil\<close>. This is
    sound because the package never shares a node between two parents: every node is
    allocated by \<open>build\<close>, \<open>buildBounded\<close>, \<open>insert\<close> or \<open>insertBounded\<close> and stored in exactly
    one place. In-place updates of a node are returned as the updated node.
  \<^item> A run-time panic is a value \<open>Inl e\<close> of the result type \<open>panic + 'a\<close>.
\<close>

subsection \<open>Distances with infinity\<close>

datatype edist = Fin real | PInf

instantiation edist :: linorder
begin

fun less_eq_edist :: "edist \<Rightarrow> edist \<Rightarrow> bool" where
  "less_eq_edist (Fin a) (Fin b) = (a \<le> b)"
| "less_eq_edist PInf (Fin b) = False"
| "less_eq_edist x PInf = True"

fun less_edist :: "edist \<Rightarrow> edist \<Rightarrow> bool" where
  "less_edist (Fin a) (Fin b) = (a < b)"
| "less_edist (Fin a) PInf = True"
| "less_edist PInf y = False"

instance
proof
  fix x y z :: edist
  show "(x < y) = (x \<le> y \<and> \<not> y \<le> x)"
    by (cases x; cases y) auto
  show "x \<le> x"
    by (cases x) auto
  show "x \<le> y \<Longrightarrow> y \<le> z \<Longrightarrow> x \<le> z"
    by (cases x; cases y; cases z) auto
  show "x \<le> y \<Longrightarrow> y \<le> x \<Longrightarrow> x = y"
    by (cases x; cases y) auto
  show "x \<le> y \<or> y \<le> x"
    by (cases x; cases y) auto
qed

end

subsection \<open>Panics\<close>

datatype panic =
    NilDereference          \<comment> \<open>invalid memory address or nil pointer dereference\<close>
  | DivideByZero            \<comment> \<open>integer divide by zero\<close>
  | IndexOutOfRange         \<comment> \<open>index or slice bounds out of range\<close>
  | MakesliceCapOutOfRange  \<comment> \<open>makeslice: cap out of range\<close>

text \<open>Go's \<open>%\<close> on integers: the remainder of the division truncated towards zero.\<close>

definition go_rem :: "int \<Rightarrow> int \<Rightarrow> panic + int" where
  "go_rem a b = (if b = 0 then Inl DivideByZero else Inr (sgn a * (\<bar>a\<bar> mod \<bar>b\<bar>)))"

subsection \<open>The interfaces\<close>

text \<open>
  \<open>Bounding\<close> is \<open>[2]Comparable\<close>; a \<open>*Bounding\<close> is an optional pair.

  The methods of \<open>Comparable\<close> are the fields \<open>Compare\<close>, \<open>Dims\<close>, \<open>Distance\<close> and \<open>Clone\<close>.
  The type assertion \<open>c.(extender)\<close> is the field \<open>Extender\<close>: \<open>None\<close> when the dynamic type
  of \<open>c\<close> has no method \<open>Extend\<close>, and \<open>Some (c.Extend)\<close> otherwise.
\<close>

type_synonym 'p Bounding = "'p \<times> 'p"

record 'p Comparable =
  Compare :: "'p \<Rightarrow> 'p \<Rightarrow> int \<Rightarrow> real"
  Dims :: "'p \<Rightarrow> int"
  Distance :: "'p \<Rightarrow> 'p \<Rightarrow> real"
  Clone :: "'p \<Rightarrow> 'p"
  Extender :: "'p \<Rightarrow> ('p Bounding option \<Rightarrow> 'p Bounding option) option"

text \<open>\<open>func (b *Bounding) Contains(c Comparable) bool\<close>\<close>

fun Contains :: "'p Comparable \<Rightarrow> 'p Bounding option \<Rightarrow> 'p \<Rightarrow> bool" where
  "Contains I None c = True"
| "Contains I (Some (b0, b1)) c =
     list_all (\<lambda>d. \<not> (Compare I c b0 d < 0 \<or> Compare I c b1 d > 0)) [0 .. Dims I c - 1]"

subsection \<open>Nodes and trees\<close>

datatype 'p node =
    nil
  | Node (Point: 'p) (Plane: int) (Left: "'p node") (Right: "'p node")
         (Bounding: "'p Bounding option")

record 'p Tree =
  Root :: "'p node"
  Count :: int

text \<open>The points stored below a node, in the order of an in-order walk.\<close>

fun points :: "'p node \<Rightarrow> 'p list" where
  "points nil = []"
| "points (Node p pl l r b) = points l @ p # points r"

subsection \<open>Construction\<close>

text \<open>
  Modelled from the spec: the point source (the implementation of \<open>Interface\<close> and of
  \<open>Bounder\<close>) is not part of the package. Following section 4.2 of the specification the
  source is a sequence of points, \<open>Index\<close>, \<open>Len\<close> and \<open>Slice\<close> are those of a Go slice, and
  \<open>Pivot\<close> rearranges the sequence in place and returns an index. \<open>Pivot\<close> and \<open>Bounds\<close>
  themselves are parameters: \<open>pivot ps plane\<close> is the rearranged sequence together with the
  returned index, \<open>bounds ps\<close> is the result of \<open>Bounds\<close> on the (sub)sequence \<open>ps\<close>.
  Since the rearrangement is in place, the length cannot change; a \<open>pivot\<close> that changes it
  is no \<open>Pivot\<close>, and the model stops with the same panic as for an index out of range.
\<close>

type_synonym 'p Pivot = "'p list \<Rightarrow> int \<Rightarrow> 'p list \<times> int"

text \<open>\<open>func build(p Interface, plane Dim) *Node\<close>\<close>

function build :: "'p Comparable \<Rightarrow> 'p Pivot \<Rightarrow> 'p list \<Rightarrow> int \<Rightarrow> panic + 'p node" where
  "build I pivot ps plane =
     (if ps = [] then Inr nil
      else case pivot ps plane of
             (ps', piv) \<Rightarrow>
               if length ps' \<noteq> length ps \<or> piv < 0 \<or> int (length ps') \<le> piv
               then Inl IndexOutOfRange
               else (case go_rem (plane + 1) (Dims I (ps' ! nat piv)) of
                       Inl e \<Rightarrow> Inl e
                     | Inr np \<Rightarrow>
                         (case build I pivot (take (nat piv) ps') np of
                            Inl e \<Rightarrow> Inl e
                          | Inr l \<Rightarrow>
                              (case build I pivot (drop (nat piv + 1) ps') np of
                                 Inl e \<Rightarrow> Inl e
                               | Inr r \<Rightarrow> Inr (Node (ps' ! nat piv) plane l r None)))))"
  by pat_completeness auto
termination
  by (relation "measure (\<lambda>(I, pivot, ps, plane). length ps)") auto

declare build.simps [simp del]

text \<open>\<open>func buildBounded(p bounder, plane Dim, bounding bool) *Node\<close>\<close>

function buildBounded ::
  "'p Comparable \<Rightarrow> 'p Pivot \<Rightarrow> ('p list \<Rightarrow> 'p Bounding option) \<Rightarrow> 'p list \<Rightarrow> int \<Rightarrow> bool
     \<Rightarrow> panic + 'p node" where
  "buildBounded I pivot bounds ps plane bounding =
     (if ps = [] then Inr nil
      else case pivot ps plane of
             (ps', piv) \<Rightarrow>
               if length ps' \<noteq> length ps \<or> piv < 0 \<or> int (length ps') \<le> piv
               then Inl IndexOutOfRange
               else (case go_rem (plane + 1) (Dims I (ps' ! nat piv)) of
                       Inl e \<Rightarrow> Inl e
                     | Inr np \<Rightarrow>
                         (let b = (if bounding then bounds ps' else None)
                          in case buildBounded I pivot bounds (take (nat piv) ps') np bounding of
                               Inl e \<Rightarrow> Inl e
                             | Inr l \<Rightarrow>
                                 (case buildBounded I pivot bounds (drop (nat piv + 1) ps') np
                                         bounding of
                                    Inl e \<Rightarrow> Inl e
                                  | Inr r \<Rightarrow> Inr (Node (ps' ! nat piv) plane l r b)))))"
  by pat_completeness auto
termination
  by (relation "measure (\<lambda>(I, pivot, bounds, ps, plane, bounding). length ps)") auto

declare buildBounded.simps [simp del]

text \<open>
  \<open>func New(p Interface, bounding bool) *Tree\<close>. The type assertion \<open>p.(bounder)\<close> is the
  optional argument \<open>bounder\<close>: \<open>Some bounds\<close> when the source has the method \<open>Bounds\<close>.
\<close>

definition New ::
  "'p Comparable \<Rightarrow> 'p Pivot \<Rightarrow> ('p list \<Rightarrow> 'p Bounding option) option \<Rightarrow> 'p list \<Rightarrow> bool
     \<Rightarrow> panic + 'p Tree" where
  "New I pivot bounder ps bounding =
     (case bounder of
        Some bounds \<Rightarrow>
          if bounding
          then (case buildBounded I pivot bounds ps 0 bounding of
                  Inl e \<Rightarrow> Inl e
                | Inr n \<Rightarrow> Inr \<lparr>Root = n, Count = int (length ps)\<rparr>)
          else (case build I pivot ps 0 of
                  Inl e \<Rightarrow> Inl e
                | Inr n \<Rightarrow> Inr \<lparr>Root = n, Count = int (length ps)\<rparr>)
      | None \<Rightarrow>
          (case build I pivot ps 0 of
             Inl e \<Rightarrow> Inl e
           | Inr n \<Rightarrow> Inr \<lparr>Root = n, Count = int (length ps)\<rparr>))"

subsection \<open>Insertion\<close>

text \<open>\<open>func (n *Node) insert(c Comparable, d Dim) *Node\<close>\<close>

fun insert_node :: "'p Comparable \<Rightarrow> 'p node \<Rightarrow> 'p \<Rightarrow> int \<Rightarrow> panic + 'p node" where
  "insert_node I nil c d = Inr (Node c d nil nil None)"
| "insert_node I (Node p pl l r b) c d =
     (case go_rem (pl + 1) (Dims I c) of
        Inl e \<Rightarrow> Inl e
      | Inr d' \<Rightarrow>
          if Compare I c p pl \<le> 0
          then (case insert_node I l c d' of
                  Inl e \<Rightarrow> Inl e
                | Inr l' \<Rightarrow> Inr (Node p pl l' r b))
          else (case insert_node I r c d' of
                  Inl e \<Rightarrow> Inl e
                | Inr r' \<Rightarrow> Inr (Node p pl l r' b)))"

text \<open>
  \<open>func (n *Node) insertBounded(c extender, d Dim, bounding bool) *Node\<close>; the argument
  \<open>ext\<close> is the method \<open>c.Extend\<close>.
\<close>

fun insertBounded ::
  "'p Comparable \<Rightarrow> 'p node \<Rightarrow> 'p \<Rightarrow> ('p Bounding option \<Rightarrow> 'p Bounding option) \<Rightarrow> int \<Rightarrow> bool
     \<Rightarrow> panic + 'p node" where
  "insertBounded I nil c ext d bounding =
     Inr (Node c d nil nil (if bounding then Some (Clone I c, Clone I c) else None))"
| "insertBounded I (Node p pl l r b) c ext d bounding =
     (let b' = (if bounding then ext b else b) in
      case go_rem (pl + 1) (Dims I c) of
        Inl e \<Rightarrow> Inl e
      | Inr d' \<Rightarrow>
          if Compare I c p pl \<le> 0
          then (case insertBounded I l c ext d' bounding of
                  Inl e \<Rightarrow> Inl e
                | Inr l' \<Rightarrow> Inr (Node p pl l' r b'))
          else (case insertBounded I r c ext d' bounding of
                  Inl e \<Rightarrow> Inl e
                | Inr r' \<Rightarrow> Inr (Node p pl l r' b')))"

text \<open>\<open>t.Root.Bounding = nil\<close>, for a root that is not nil.\<close>

fun clear_Bounding :: "'p node \<Rightarrow> 'p node" where
  "clear_Bounding nil = nil"
| "clear_Bounding (Node p pl l r b) = Node p pl l r None"

text \<open>\<open>func (t *Tree) Insert(c Comparable, bounding bool)\<close>\<close>

definition Insert :: "'p Comparable \<Rightarrow> 'p Tree \<Rightarrow> 'p \<Rightarrow> bool \<Rightarrow> panic + 'p Tree" where
  "Insert I t c bounding =
     (let cnt = Count t + 1;
          bounding = (if Root t \<noteq> nil then Bounding (Root t) \<noteq> None else bounding)
      in case Extender I c of
           Some ext \<Rightarrow>
             if bounding
             then (case insertBounded I (Root t) c ext 0 bounding of
                     Inl e \<Rightarrow> Inl e
                   | Inr n \<Rightarrow> Inr \<lparr>Root = n, Count = cnt\<rparr>)
             else (case insert_node I (Root t) c 0 of
                     Inl e \<Rightarrow> Inl e
                   | Inr n \<Rightarrow> Inr \<lparr>Root = n, Count = cnt\<rparr>)
         | None \<Rightarrow>
             (case insert_node I (if Root t \<noteq> nil then clear_Bounding (Root t) else Root t) c 0 of
                Inl e \<Rightarrow> Inl e
              | Inr n \<Rightarrow> Inr \<lparr>Root = n, Count = cnt\<rparr>))"

text \<open>\<open>func (t *Tree) Contains(c Comparable) bool\<close>: \<open>t.Root.Bounding\<close> dereferences the root.\<close>

definition Tree_Contains :: "'p Comparable \<Rightarrow> 'p Tree \<Rightarrow> 'p \<Rightarrow> panic + bool" where
  "Tree_Contains I t c =
     (case Root t of
        nil \<Rightarrow> Inl NilDereference
      | Node p pl l r b \<Rightarrow> if b = None then Inr True else Inr (Contains I b c))"

subsection \<open>Nearest neighbour\<close>

text \<open>\<open>func (n *Node) search(q Comparable, dist float64) (*Node, float64)\<close>\<close>

fun search :: "'p Comparable \<Rightarrow> 'p node \<Rightarrow> 'p \<Rightarrow> edist \<Rightarrow> 'p node \<times> edist" where
  "search I nil q dst = (nil, PInf)"
| "search I (Node p pl l r b) q dst =
     (let c = Compare I q p pl;
          dst = min dst (Fin (Distance I q p));
          best = Node p pl l r b
      in if c \<le> 0
         then (case search I l q dst of (ln0, ld) \<Rightarrow>
                (case (if ld < dst then (ln0, ld) else (best, dst)) of (best, dst) \<Rightarrow>
                   if Fin (c * c) \<le> dst
                   then (case search I r q dst of (rn0, rd) \<Rightarrow>
                           if rd < dst then (rn0, rd) else (best, dst))
                   else (best, dst)))
         else (case search I r q dst of (rn0, rd) \<Rightarrow>
                (case (if rd < dst then (rn0, rd) else (best, dst)) of (best, dst) \<Rightarrow>
                   if Fin (c * c) \<le> dst
                   then (case search I l q dst of (ln0, ld) \<Rightarrow>
                           if ld < dst then (ln0, ld) else (best, dst))
                   else (best, dst))))"

text \<open>
  \<open>func (t *Tree) Nearest(q Comparable) (Comparable, float64)\<close>; a nil \<open>Comparable\<close> is
  \<open>None\<close>.
\<close>

definition Nearest :: "'p Comparable \<Rightarrow> 'p Tree \<Rightarrow> 'p \<Rightarrow> 'p option \<times> edist" where
  "Nearest I t q =
     (if Root t = nil then (None, PInf)
      else case search I (Root t) q PInf of
             (nil, dst) \<Rightarrow> (None, PInf)
           | (Node p pl l r b, dst) \<Rightarrow> (Some p, dst))"

subsection \<open>The n nearest neighbours\<close>

text \<open>
  \<open>type NodeDist struct { *Node; Dist float64 }\<close> is a pair; \<open>type nDists []NodeDist\<close> is a
  slice, of which the model keeps the elements and the capacity.
\<close>

type_synonym 'p NodeDist = "'p node \<times> edist"

record 'p nDists =
  elts :: "'p NodeDist list"
  capacity :: int

text \<open>\<open>func newNDists(n int) nDists\<close>: \<open>make(nDists, 1, n)\<close> panics unless \<open>1 \<le> n\<close>.\<close>

definition newNDists :: "int \<Rightarrow> panic + 'p nDists" where
  "newNDists n =
     (if n < 1 then Inl MakesliceCapOutOfRange
      else Inr \<lparr>elts = [(nil, PInf)], capacity = n\<rparr>)"

text \<open>\<open>func (nd nDists) Less(i, j int) bool\<close> and \<open>func (nd nDists) Swap(i, j int)\<close>\<close>

definition Less :: "'p NodeDist list \<Rightarrow> nat \<Rightarrow> nat \<Rightarrow> bool" where
  "Less nd i j = (snd (nd ! i) > snd (nd ! j))"

definition Swap :: "'p NodeDist list \<Rightarrow> nat \<Rightarrow> nat \<Rightarrow> 'p NodeDist list" where
  "Swap nd i j = nd[i := nd ! j, j := nd ! i]"

text \<open>
  \<open>heap.Push\<close> and \<open>heap.Pop\<close> belong to Go's standard library (\<open>container/heap\<close>). They are
  transcribed here, with their loops \<open>up\<close> and \<open>down\<close>, for the receiver type \<open>*nDists\<close>:
  \<^verbatim>\<open>
  func Push(h Interface, x any) { h.Push(x); up(h, h.Len()-1) }
  func Pop(h Interface) any { n := h.Len() - 1; h.Swap(0, n); down(h, 0, n); return h.Pop() }
  func up(h Interface, j int) {
      for { i := (j - 1) / 2
            if i == j || !h.Less(j, i) { break }
            h.Swap(i, j); j = i } }
  func down(h Interface, i0, n int) bool {
      i := i0
      for { j1 := 2*i + 1
            if j1 >= n || j1 < 0 { break }
            j := j1
            if j2 := j1 + 1; j2 < n && h.Less(j2, j1) { j = j2 }
            if !h.Less(j, i) { break }
            h.Swap(i, j); i = j }
      return i > i0 }
  \<close>
  Indices are natural numbers; for \<open>j = 0\<close> both Go's truncating \<open>(j - 1) / 2\<close> and the
  model's \<open>(j - 1) div 2\<close> are \<open>0\<close>.
\<close>

function heap_up :: "'p NodeDist list \<Rightarrow> nat \<Rightarrow> 'p NodeDist list" where
  "heap_up h j =
     (let i = (j - 1) div 2
      in if i = j \<or> \<not> Less h j i then h else heap_up (Swap h i j) i)"
  by pat_completeness auto
termination
  by (relation "measure snd") auto

declare heap_up.simps [simp del]

function heap_down :: "'p NodeDist list \<Rightarrow> nat \<Rightarrow> nat \<Rightarrow> 'p NodeDist list" where
  "heap_down h i n =
     (let j1 = 2 * i + 1
      in if j1 \<ge> n then h
         else let j = (if j1 + 1 < n \<and> Less h (j1 + 1) j1 then j1 + 1 else j1)
              in if \<not> Less h j i then h else heap_down (Swap h i j) j n)"
  by pat_completeness auto
termination
  by (relation "measure (\<lambda>(h, i, n). n - i)") auto

declare heap_down.simps [simp del]

text \<open>
  \<open>heap.Push(nd, x)\<close>, with \<open>func (nd *nDists) Push(x interface{})\<close> appending \<open>x\<close>. When
  \<open>append\<close> has to grow the slice the runtime chooses the new capacity; the model takes the
  least one. \<open>Keep\<close> never pushes onto a full slice.
\<close>

definition heap_Push :: "'p nDists \<Rightarrow> 'p NodeDist \<Rightarrow> 'p nDists" where
  "heap_Push nd x =
     \<lparr>elts = heap_up (elts nd @ [x]) (length (elts nd)),
      capacity = max (capacity nd) (int (length (elts nd)) + 1)\<rparr>"

text \<open>
  \<open>heap.Pop(nd)\<close>, with \<open>func (nd *nDists) Pop() (i interface{})\<close> cutting the last element
  off. On an empty slice \<open>Swap(0, -1)\<close> panics.
\<close>

definition heap_Pop :: "'p nDists \<Rightarrow> panic + ('p NodeDist \<times> 'p nDists)" where
  "heap_Pop nd =
     (if elts nd = [] then Inl IndexOutOfRange
      else let n = length (elts nd) - 1;
               h = heap_down (Swap (elts nd) 0 n) 0 n
           in Inr (last h, nd\<lparr>elts := butlast h\<rparr>))"

text \<open>\<open>func (nd *nDists) Keep(n NodeDist)\<close>\<close>

definition Keep :: "'p nDists \<Rightarrow> 'p NodeDist \<Rightarrow> panic + 'p nDists" where
  "Keep nd n =
     (case elts nd of
        [] \<Rightarrow> Inl IndexOutOfRange
      | h0 # _ \<Rightarrow>
          if snd n < snd h0
          then (if int (length (elts nd)) = capacity nd
                then (case heap_Pop nd of
                        Inl e \<Rightarrow> Inl e
                      | Inr (_, nd') \<Rightarrow> Inr (heap_Push nd' n))
                else Inr (heap_Push nd n))
          else Inr nd)"

text \<open>\<open>func (n *Node) searchN(q Comparable, dists nDists) nDists\<close>\<close>

fun searchN :: "'p Comparable \<Rightarrow> 'p node \<Rightarrow> 'p \<Rightarrow> 'p nDists \<Rightarrow> panic + 'p nDists" where
  "searchN I nil q dists = Inr dists"
| "searchN I (Node p pl l r b) q dists =
     (let c = Compare I q p pl
      in case Keep dists (Node p pl l r b, Fin (Distance I q p)) of
           Inl e \<Rightarrow> Inl e
         | Inr dists \<Rightarrow>
             if c \<le> 0
             then (case searchN I l q dists of
                     Inl e \<Rightarrow> Inl e
                   | Inr dists \<Rightarrow>
                       (case elts dists of
                          [] \<Rightarrow> Inl IndexOutOfRange
                        | h0 # _ \<Rightarrow>
                            if Fin (c * c) \<le> snd h0 then searchN I r q dists else Inr dists))
             else (case searchN I r q dists of
                     Inl e \<Rightarrow> Inl e
                   | Inr dists \<Rightarrow>
                       (case elts dists of
                          [] \<Rightarrow> Inl IndexOutOfRange
                        | h0 # _ \<Rightarrow>
                            if Fin (c * c) \<le> snd h0 then searchN I l q dists else Inr dists)))"

text \<open>
  \<open>sort.Sort(nd)\<close> belongs to Go's standard library. It sorts by \<open>Less\<close>, here by decreasing
  \<open>Dist\<close>, and is not stable. The model is the insertion sort that \<open>sort.Sort\<close> runs on slices
  of at most 12 elements, which moves an element in front of another one only where \<open>Less\<close>
  says so; on longer slices the order among equal distances may differ.
\<close>

fun sort_insert :: "'p NodeDist \<Rightarrow> 'p NodeDist list \<Rightarrow> 'p NodeDist list" where
  "sort_insert x [] = [x]"
| "sort_insert x (y # ys) = (if snd x < snd y then y # sort_insert x ys else x # y # ys)"

fun sort_Sort :: "'p NodeDist list \<Rightarrow> 'p NodeDist list" where
  "sort_Sort [] = []"
| "sort_Sort (x # xs) = sort_insert x (sort_Sort xs)"

text \<open>
  The last loop of \<open>NearestN\<close>: \<open>for i, n := range nd { ns[i] = n.Point; dist[i] = n.Dist }\<close>.
  \<open>n.Point\<close> dereferences the embedded \<open>*Node\<close>.
\<close>

fun collect :: "'p NodeDist list \<Rightarrow> panic + ('p list \<times> edist list)" where
  "collect [] = Inr ([], [])"
| "collect ((nil, d) # nd) = Inl NilDereference"
| "collect ((Node p pl l r b, d) # nd) =
     (case collect nd of
        Inl e \<Rightarrow> Inl e
      | Inr (ns, ds) \<Rightarrow> Inr (p # ns, d # ds))"

text \<open>
  \<open>func (t *Tree) NearestN(n int, q Comparable) ([]Comparable, []float64)\<close>. The argument
  \<open>newNDists(n)\<close> is evaluated before \<open>searchN\<close> is entered.
\<close>

definition NearestN ::
  "'p Comparable \<Rightarrow> 'p Tree \<Rightarrow> int \<Rightarrow> 'p \<Rightarrow> panic + ('p list \<times> edist list)" where
  "NearestN I t n q =
     (if Root t = nil then Inr ([], [PInf])
      else case newNDists n of
             Inl e \<Rightarrow> Inl e
           | Inr nd0 \<Rightarrow>
               (case searchN I (Root t) q nd0 of
                  Inl e \<Rightarrow> Inl e
                | Inr nd \<Rightarrow>
                    if length (elts nd) = 1
                    then (case elts nd ! 0 of
                            (nil, d) \<Rightarrow> Inr ([], [PInf])
                          | (Node p pl l r b, d) \<Rightarrow> Inr ([p], [d]))
                    else collect (rev (sort_Sort (elts nd)))))"

subsection \<open>Traversal\<close>

text \<open>
  \<open>type Operation func(Comparable, *Bounding, int) (done bool)\<close>. Whatever the visitor does
  besides returning \<open>done\<close> is a change of a state of its own, of type \<open>'s\<close>.
\<close>

type_synonym ('p, 's) Operation = "'p \<Rightarrow> 'p Bounding option \<Rightarrow> int \<Rightarrow> 's \<Rightarrow> bool \<times> 's"

text \<open>\<open>func (n *Node) do(fn Operation, depth int) (done bool)\<close>\<close>

fun do_node :: "('p, 's) Operation \<Rightarrow> 'p node \<Rightarrow> int \<Rightarrow> 's \<Rightarrow> panic + (bool \<times> 's)" where
  "do_node fn nil depth s = Inl NilDereference"
| "do_node fn (Node p pl l r b) depth s =
     (case (if l \<noteq> nil then do_node fn l (depth + 1) s else Inr (False, s)) of
        Inl e \<Rightarrow> Inl e
      | Inr (done, s1) \<Rightarrow>
          if done then Inr (True, s1)
          else (case fn p b depth s1 of
                  (done, s2) \<Rightarrow>
                    if done then Inr (True, s2)
                    else if r \<noteq> nil then do_node fn r (depth + 1) s2
                    else Inr (False, s2)))"

text \<open>\<open>func (n *Node) doBounded(fn Operation, b *Bounding, depth int) (done bool)\<close>\<close>

fun doBounded ::
  "'p Comparable \<Rightarrow> ('p, 's) Operation \<Rightarrow> 'p Bounding \<Rightarrow> 'p node \<Rightarrow> int \<Rightarrow> 's
     \<Rightarrow> panic + (bool \<times> 's)" where
  "doBounded I fn b nil depth s = Inl NilDereference"
| "doBounded I fn b (Node p pl l r bd) depth s =
     (let lc = Compare I (fst b) p pl;
          hc = Compare I (snd b) p pl
      in case (if lc < 0 \<and> l \<noteq> nil then doBounded I fn b l (depth + 1) s
               else Inr (False, s)) of
           Inl e \<Rightarrow> Inl e
         | Inr (done, s1) \<Rightarrow>
             if done then Inr (True, s1)
             else (case (if Contains I (Some b) p then fn p (Some b) depth s1
                         else (False, s1)) of
                     (done, s2) \<Rightarrow>
                       if done then Inr (True, s2)
                       else if hc > 0 \<and> r \<noteq> nil then doBounded I fn b r (depth + 1) s2
                       else Inr (False, s2)))"

text \<open>\<open>func (t *Tree) Do(fn Operation) bool\<close>\<close>

definition Do :: "('p, 's) Operation \<Rightarrow> 'p Tree \<Rightarrow> 's \<Rightarrow> panic + (bool \<times> 's)" where
  "Do fn t s = (if Root t = nil then Inr (False, s) else do_node fn (Root t) 0 s)"

text \<open>\<open>func (t *Tree) DoBounded(fn Operation, b *Bounding) bool\<close>\<close>

definition DoBounded ::
  "'p Comparable \<Rightarrow> ('p, 's) Operation \<Rightarrow> 'p Bounding option \<Rightarrow> 'p Tree \<Rightarrow> 's
     \<Rightarrow> panic + (bool \<times> 's)" where
  "DoBounded I fn b t s =
     (if Root t = nil then Inr (False, s)
      else case b of
             None \<Rightarrow> do_node fn (Root t) 0 s
           | Some bb \<Rightarrow> doBounded I fn bb (Root t) 0 s)"

subsection \<open>Sequences of insertions\<close>

text \<open>\<open>Inserts I t cs\<close> calls \<open>t.Insert(c, bounding)\<close> for the pairs of \<open>cs\<close> in turn.\<close>

fun Inserts :: "'p Comparable \<Rightarrow> 'p Tree \<Rightarrow> ('p \<times> bool) list \<Rightarrow> panic + 'p Tree" where
  "Inserts I t [] = Inr t"
| "Inserts I t ((c, bounding) # cs) =
     (case Insert I t c bounding of
        Inl e \<Rightarrow> Inl e
      | Inr t' \<Rightarrow> Inserts I t' cs)"

section \<open>The properties of the specification\<close>

subsection \<open>What the package expects of its callers\<close>

text \<open>
  The comments of \<open>Comparable\<close> document \<open>a.Compare(b, d)\<close> as the difference \<open>a_d - b_d\<close> of
  the coordinates and \<open>Distance\<close> as the squared Euclidean distance. The searches use two
  consequences of that: \<open>Compare\<close> is a difference of coordinates, and no squared difference
  of coordinates exceeds the distance.
\<close>

definition coordinates :: "'p Comparable \<Rightarrow> ('p \<Rightarrow> int \<Rightarrow> real) \<Rightarrow> bool" where
  "coordinates I coord \<longleftrightarrow>
     (\<forall>a b d. Compare I a b d = coord a d - coord b d) \<and>
     (\<forall>a b d. (coord a d - coord b d)\<^sup>2 \<le> Distance I a b)"

text \<open>
  The postcondition of \<open>Pivot\<close> (section 4.2 of the specification): the sequence is
  rearranged, the returned index is one of its indices, no element in front of that index
  is greater than the pivot along the plane, and every element behind it is greater.
\<close>

definition pivot_partitions :: "'p Comparable \<Rightarrow> 'p Pivot \<Rightarrow> bool" where
  "pivot_partitions I pivot \<longleftrightarrow>
     (\<forall>ps plane. ps \<noteq> [] \<longrightarrow>
        (case pivot ps plane of
           (ps', piv) \<Rightarrow>
             mset ps' = mset ps \<and> 0 \<le> piv \<and> piv < int (length ps') \<and>
             (\<forall>x \<in> set (take (nat piv) ps'). Compare I x (ps' ! nat piv) plane \<le> 0) \<and>
             (\<forall>x \<in> set (drop (nat piv + 1) ps'). Compare I x (ps' ! nat piv) plane > 0)))"

text \<open>
  An \<open>Extender\<close> grows a bounding volume so that it includes the point, and a clone of a
  point is where the point is; \<open>Bounds\<close> returns a volume that contains the points of the
  source.
\<close>

definition extends :: "'p Comparable \<Rightarrow> bool" where
  "extends I \<longleftrightarrow>
     (\<forall>c ext b. Extender I c = Some ext \<longrightarrow>
        Contains I (Some (Clone I c, Clone I c)) c \<and>
        (\<exists>b'. ext (Some b) = Some b' \<and> Contains I (Some b') c \<and>
              (\<forall>p. Contains I (Some b) p \<longrightarrow> Contains I (Some b') p)))"

definition bounds_all :: "'p Comparable \<Rightarrow> ('p list \<Rightarrow> 'p Bounding option) \<Rightarrow> bool" where
  "bounds_all I bounds \<longleftrightarrow>
     (\<forall>ps. ps \<noteq> [] \<longrightarrow> (\<exists>b. bounds ps = Some b \<and> (\<forall>p \<in> set ps. Contains I (Some b) p)))"

subsection \<open>Invariants of a tree\<close>

text \<open>
  The ordering of section 3: along the plane of a node, no point of its left subtree is
  greater than the point of the node and every point of its right subtree is greater.
\<close>

fun ordered :: "'p Comparable \<Rightarrow> 'p node \<Rightarrow> bool" where
  "ordered I nil = True"
| "ordered I (Node p pl l r b) =
     ((\<forall>x \<in> set (points l). Compare I x p pl \<le> 0) \<and>
      (\<forall>x \<in> set (points r). Compare I x p pl > 0) \<and>
      ordered I l \<and> ordered I r)"

text \<open>Every bounding volume that is present contains the points of its own subtree.\<close>

fun bounds_hold :: "'p Comparable \<Rightarrow> 'p node \<Rightarrow> bool" where
  "bounds_hold I nil = True"
| "bounds_hold I (Node p pl l r b) =
     ((\<forall>x \<in> set (points (Node p pl l r b)). Contains I b x) \<and>
      bounds_hold I l \<and> bounds_hold I r)"

text \<open>No node has a bounding volume; every node has one.\<close>

fun unbounded :: "'p node \<Rightarrow> bool" where
  "unbounded nil = True"
| "unbounded (Node p pl l r b) = (b = None \<and> unbounded l \<and> unbounded r)"

fun all_bounded :: "'p node \<Rightarrow> bool" where
  "all_bounded nil = True"
| "all_bounded (Node p pl l r b) = (b \<noteq> None \<and> all_bounded l \<and> all_bounded r)"

text \<open>Either no node has a bounding volume, or every node has one, which holds.\<close>

definition consistent :: "'p Comparable \<Rightarrow> 'p node \<Rightarrow> bool" where
  "consistent I n \<longleftrightarrow> unbounded n \<or> (all_bounded n \<and> bounds_hold I n)"

text \<open>The bounding volumes that are present below a node, in the order of an in-order walk.\<close>

fun volumes :: "'p node \<Rightarrow> 'p Bounding list" where
  "volumes nil = []"
| "volumes (Node p pl l r b) =
     volumes l @ (case b of None \<Rightarrow> [] | Some v \<Rightarrow> [v]) @ volumes r"

text \<open>
  No node carries a bounding volume while one of its ancestors does not (the state that
  section 4.4 calls torn is the negation).
\<close>

fun not_torn :: "'p node \<Rightarrow> bool" where
  "not_torn nil = True"
| "not_torn (Node p pl l r b) =
     ((b = None \<longrightarrow> unbounded l \<and> unbounded r) \<and> not_torn l \<and> not_torn r)"

text \<open>
  A sequence of insertions keeps clear of the invalidation of section 4.4 when no point
  without the method \<open>Extend\<close> is inserted while the root holds a bounding volume.
\<close>

fun rebounding :: "'p Comparable \<Rightarrow> 'p Tree \<Rightarrow> ('p \<times> bool) list \<Rightarrow> bool" where
  "rebounding I t [] = True"
| "rebounding I t ((c, bounding) # cs) =
     ((Extender I c \<noteq> None \<or> Root t = nil \<or> Bounding (Root t) = None) \<and>
      (case Insert I t c bounding of
         Inl e \<Rightarrow> True
       | Inr t' \<Rightarrow> rebounding I t' cs))"

text \<open>
  Every plane is an index into the coordinates of the points stored at and below its node;
  and no point of a left subtree ties with the point of the node along the plane.
\<close>

fun planes_fit :: "'p Comparable \<Rightarrow> 'p node \<Rightarrow> bool" where
  "planes_fit I nil = True"
| "planes_fit I (Node p pl l r b) =
     (0 \<le> pl \<and> (\<forall>x \<in> set (points (Node p pl l r b)). pl < Dims I x) \<and>
      planes_fit I l \<and> planes_fit I r)"

fun tie_free :: "'p Comparable \<Rightarrow> 'p node \<Rightarrow> bool" where
  "tie_free I nil = True"
| "tie_free I (Node p pl l r b) =
     ((\<forall>x \<in> set (points l). Compare I x p pl \<noteq> 0) \<and> tie_free I l \<and> tie_free I r)"

subsection \<open>The result of a search\<close>

text \<open>What a call of \<open>search\<close> on the subtree \<open>n\<close> with the bound \<open>D\<close> has found.\<close>

definition found :: "'p Comparable \<Rightarrow> 'p \<Rightarrow> 'p node \<Rightarrow> edist \<Rightarrow> 'p node \<times> edist \<Rightarrow> bool" where
  "found I q n D res \<longleftrightarrow>
     (\<forall>x \<in> set (points n). min D (snd res) \<le> Fin (Distance I q x)) \<and>
     (snd res < D \<longrightarrow>
        fst res \<noteq> nil \<and> Point (fst res) \<in> set (points n) \<and>
        snd res = Fin (Distance I q (Point (fst res))))"

subsection \<open>Points of the plane\<close>

text \<open>
  Modelled from the spec: no implementation of \<open>Comparable\<close>, \<open>Extender\<close>, \<open>Interface\<close> or
  \<open>Bounder\<close> is part of the package. The points below are those of the scenarios of
  section 8 of the specification: two coordinates, \<open>Compare\<close> the difference of the
  coordinates along the plane (the second coordinate for every plane but \<open>0\<close>) and
  \<open>Distance\<close> the squared Euclidean distance, as the comments of \<open>Comparable\<close> say. A point
  either has the method \<open>Extend\<close>, which grows the box by minimum and maximum per
  coordinate and makes a box of the point itself out of a nil \<open>*Bounding\<close>, or has not.
\<close>

datatype point2 = P2 (extendable: bool) (px: real) (py: real)

definition coord2 :: "point2 \<Rightarrow> int \<Rightarrow> real" where
  "coord2 a d = (if d = 0 then px a else py a)"

fun Extend2 :: "point2 \<Rightarrow> point2 Bounding option \<Rightarrow> point2 Bounding option" where
  "Extend2 c None = Some (c, c)"
| "Extend2 c (Some (lo, hi)) =
     Some (P2 (extendable lo) (min (px lo) (px c)) (min (py lo) (py c)),
           P2 (extendable hi) (max (px hi) (px c)) (max (py hi) (py c)))"

definition plane_points :: "point2 Comparable" where
  "plane_points =
     \<lparr>Compare = (\<lambda>a b d. coord2 a d - coord2 b d),
      Dims = (\<lambda>a. 2),
      Distance = (\<lambda>a b. (px a - px b)\<^sup>2 + (py a - py b)\<^sup>2),
      Clone = (\<lambda>a. a),
      Extender = (\<lambda>c. if extendable c then Some (Extend2 c) else None)\<rparr>"

text \<open>
  A \<open>Pivot\<close> for these points: it partitions around the first element. \<open>Bounds\<close> extends a
  nil \<open>*Bounding\<close> by every point of the source.
\<close>

definition pivot2 :: "point2 Pivot" where
  "pivot2 ps d =
     (case ps of
        [] \<Rightarrow> ([], - 1)
      | x # xs \<Rightarrow>
          (filter (\<lambda>y. coord2 y d \<le> coord2 x d) xs @ x # filter (\<lambda>y. \<not> coord2 y d \<le> coord2 x d) xs,
           int (length (filter (\<lambda>y. coord2 y d \<le> coord2 x d) xs))))"

definition bounds2 :: "point2 list \<Rightarrow> point2 Bounding option" where
  "bounds2 ps = fold Extend2 ps None"

text \<open>
  The tree that \<open>New\<close> builds, with \<open>pivot2\<close>, from the six points of the scenario of
  section 8 of the specification.
\<close>

definition tree6 :: "point2 node" where
  "tree6 =
     Node (P2 True 2 3) 0 nil
      (Node (P2 True 5 4) 1
        (Node (P2 True 8 1) 0 (Node (P2 True 7 2) 1 nil nil None) nil None)
        (Node (P2 True 9 6) 0 (Node (P2 True 4 7) 1 nil nil None) nil None)
        None)
      None"

text \<open>
  The tree after \<open>Insert\<close> of the points \<open>(1, 1)\<close> and \<open>(2, 2)\<close>, both with the method \<open>Extend\<close>
  and with \<open>bounding\<close> true, into the empty tree; and that tree after a further \<open>Insert\<close> of
  the point \<open>(5, 5)\<close>, which has no method \<open>Extend\<close>.
\<close>

definition bounded2 :: "point2 Tree" where
  "bounded2 =
     \<lparr>Root = Node (P2 True 1 1) 0 nil
               (Node (P2 True 2 2) 1 nil nil (Some (P2 True 2 2, P2 True 2 2)))
               (Some (P2 True 1 1, P2 True 2 2)),
      Count = 2\<rparr>"

definition torn3 :: "point2 Tree" where
  "torn3 =
     \<lparr>Root = Node (P2 True 1 1) 0 nil
               (Node (P2 True 2 2) 1 nil (Node (P2 False 5 5) 0 nil nil None)
                  (Some (P2 True 2 2, P2 True 2 2)))
               None,
      Count = 3\<rparr>"

text \<open>
  The tree that \<open>New\<close> builds, with \<open>pivot2\<close>, \<open>bounds2\<close> and \<open>bounding\<close> true, from the points
  \<open>(2, 3)\<close>, \<open>(5, 4)\<close> and \<open>(1, 6)\<close>; and that tree after \<open>Insert\<close> of the point \<open>(0, 9)\<close>, which
  has the method \<open>Extend\<close>.
\<close>

definition bounded3 :: "point2 Tree" where
  "bounded3 =
     \<lparr>Root = Node (P2 True 2 3) 0
               (Node (P2 True 1 6) 1 nil nil (Some (P2 True 1 6, P2 True 1 6)))
               (Node (P2 True 5 4) 1 nil nil (Some (P2 True 5 4, P2 True 5 4)))
               (Some (P2 True 1 3, P2 True 5 6)),
      Count = 3\<rparr>"

definition bounded4 :: "point2 Tree" where
  "bounded4 =
     \<lparr>Root = Node (P2 True 2 3) 0
               (Node (P2 True 1 6) 1 nil
                  (Node (P2 True 0 9) 0 nil nil (Some (P2 True 0 9, P2 True 0 9)))
                  (Some (P2 True 0 6, P2 True 1 9)))
               (Node (P2 True 5 4) 1 nil nil (Some (P2 True 5 4, P2 True 5 4)))
               (Some (P2 True 0 3, P2 True 5 9)),
      Count = 4\<rparr>"

text \<open>A visitor that appends the point to the sequence of the points visited and goes on.\<close>

definition visit_all :: "('p, 'p list) Operation" where
  "visit_all p b depth s = (False, s @ [p])"

text \<open>
  The tree after \<open>Insert\<close> of the points \<open>(5, 1)\<close> and \<open>(5, 2)\<close> into the empty tree: the second
  point ties with the first along plane \<open>0\<close> and goes left.
\<close>

definition ties2 :: "point2 Tree" where
  "ties2 =
     \<lparr>Root = Node (P2 False 5 1) 0 (Node (P2 False 5 2) 1 nil nil None) nil None,
      Count = 2\<rparr>"

text \<open>The tree after \<open>Insert\<close> of the point \<open>(5, 1)\<close> into the empty tree.\<close>

definition single1 :: "point2 Tree" where
  "single1 = \<lparr>Root = Node (P2 False 5 1) 0 nil nil None, Count = 1\<rparr>"

section \<open>Theorems\<close>

subsection \<open>Insertion keeps the ordering\<close>

lemma go_rem_Inr: "b \<noteq> 0 \<Longrightarrow> \<exists>r. go_rem a b = Inr r"
  by (simp add: go_rem_def)

lemma insert_node_points:
  "insert_node I n c d = Inr n' \<Longrightarrow> set (points n') = insert c (set (points n))"
proof (induction n arbitrary: d n')
  case nil
  then show ?case by auto
next
  case (Node p pl l r b)
  then show ?case
    by (auto split: sum.splits if_splits)
qed

lemma insert_node_ordered:
  "insert_node I n c d = Inr n' \<Longrightarrow> ordered I n \<Longrightarrow> ordered I n'"
proof (induction n arbitrary: d n')
  case nil
  then show ?case by auto
next
  case (Node p pl l r b)
  then show ?case
    by (auto split: sum.splits if_splits simp: insert_node_points)
qed

lemma insert_node_total:
  "Dims I c \<noteq> 0 \<Longrightarrow> \<exists>n'. insert_node I n c d = Inr n'"
proof (induction n arbitrary: d)
  case nil
  then show ?case by simp
next
  case (Node p pl l r b)
  obtain d' where d': "go_rem (pl + 1) (Dims I c) = Inr d'"
    using go_rem_Inr [OF Node.prems] by blast
  obtain l' r' where "insert_node I l c d' = Inr l'" "insert_node I r c d' = Inr r'"
    using Node.IH Node.prems by blast
  with d' show ?case by simp
qed

lemma insertBounded_points:
  "insertBounded I n c ext d bd = Inr n' \<Longrightarrow> set (points n') = insert c (set (points n))"
proof (induction n arbitrary: d n')
  case nil
  then show ?case by auto
next
  case (Node p pl l r b)
  then show ?case
    by (auto split: sum.splits if_splits simp: Let_def)
qed

lemma insertBounded_ordered:
  "insertBounded I n c ext d bd = Inr n' \<Longrightarrow> ordered I n \<Longrightarrow> ordered I n'"
proof (induction n arbitrary: d n')
  case nil
  then show ?case by auto
next
  case (Node p pl l r b)
  then show ?case
    by (auto split: sum.splits if_splits simp: insertBounded_points Let_def)
qed

lemma insertBounded_total:
  "Dims I c \<noteq> 0 \<Longrightarrow> \<exists>n'. insertBounded I n c ext d bd = Inr n'"
proof (induction n arbitrary: d)
  case nil
  then show ?case by simp
next
  case (Node p pl l r b)
  obtain d' where d': "go_rem (pl + 1) (Dims I c) = Inr d'"
    using go_rem_Inr [OF Node.prems] by blast
  obtain l' r' where "insertBounded I l c ext d' bd = Inr l'" "insertBounded I r c ext d' bd = Inr r'"
    using Node.IH Node.prems by blast
  with d' show ?case by (simp add: Let_def)
qed

lemma clear_Bounding_points [simp]: "points (clear_Bounding n) = points n"
  by (cases n) simp_all

lemma clear_Bounding_ordered [simp]: "ordered I (clear_Bounding n) = ordered I n"
  by (cases n) simp_all

lemma Insert_ordered:
  "Insert I t c bd = Inr t' \<Longrightarrow> ordered I (Root t) \<Longrightarrow> ordered I (Root t')"
  unfolding Insert_def Let_def
  by (auto split: option.splits sum.splits if_splits
        dest: insert_node_ordered insertBounded_ordered
        dest!: insert_node_ordered [where n = "clear_Bounding (Root t)", simplified])

lemma Insert_total:
  "Dims I c \<noteq> 0 \<Longrightarrow> \<exists>t'. Insert I t c bd = Inr t'"
proof -
  assume d: "Dims I c \<noteq> 0"
  show ?thesis
    unfolding Insert_def Let_def
    using insert_node_total [OF d] insertBounded_total [OF d]
    by (auto split: option.splits sum.splits) (metis Inl_Inr_False)+
qed

subsection \<open>Construction keeps the ordering\<close>

lemma build_points_ordered:
  "pivot_partitions I pivot \<Longrightarrow> build I pivot ps pl = Inr n \<Longrightarrow>
     mset (points n) = mset ps \<and> ordered I n"
proof (induction I pivot ps pl arbitrary: n rule: build.induct)
  case (1 I pivot ps plane)
  note pv = "1.prems"(1) and bld = "1.prems"(2)
  show ?case
  proof (cases "ps = []")
    case True
    with bld show ?thesis by (subst (asm) build.simps) auto
  next
    case False
    obtain ps' piv where pp: "pivot ps plane = (ps', piv)"
      by (cases "pivot ps plane")
    have post: "mset ps' = mset ps" "0 \<le> piv" "piv < int (length ps')"
      "\<forall>x \<in> set (take (nat piv) ps'). Compare I x (ps' ! nat piv) plane \<le> 0"
      "\<forall>x \<in> set (drop (nat piv + 1) ps'). Compare I x (ps' ! nat piv) plane > 0"
      using pv [unfolded pivot_partitions_def, rule_format, OF False, of plane]
      unfolding pp by simp_all
    have len: "length ps' = length ps"
      using post(1) by (metis size_mset)
    have guard: "\<not> (length ps' \<noteq> length ps \<or> piv < 0 \<or> int (length ps') \<le> piv)"
      using len post by simp
    from bld False pp guard obtain np l r where
      np: "go_rem (plane + 1) (Dims I (ps' ! nat piv)) = Inr np" and
      l: "build I pivot (take (nat piv) ps') np = Inr l" and
      r: "build I pivot (drop (nat piv + 1) ps') np = Inr r" and
      n: "n = Node (ps' ! nat piv) plane l r None"
      by (subst (asm) build.simps) (auto split: sum.splits)
    have il: "mset (points l) = mset (take (nat piv) ps') \<and> ordered I l"
      using "1.IH"(1) [OF False pp [symmetric] guard np pv l] by simp
    have ir: "mset (points r) = mset (drop (nat piv + 1) ps') \<and> ordered I r"
      using "1.IH"(2) [OF False pp [symmetric] guard np l pv r] by simp
    have sl: "set (points l) = set (take (nat piv) ps')"
      using il by (metis set_mset_mset)
    have sr: "set (points r) = set (drop (nat piv + 1) ps')"
      using ir by (metis set_mset_mset)
    have lt: "nat piv < length ps'" using post by simp
    have "mset (take (nat piv) ps' @ ps' ! nat piv # drop (Suc (nat piv)) ps') = mset ps'"
      using id_take_nth_drop [OF lt] by (rule arg_cong [where f = mset, symmetric])
    then have "mset (points n) = mset ps"
      using il ir n post(1) by simp
    moreover have "ordered I n"
      using n il ir sl sr post by simp
    ultimately show ?thesis by simp
  qed
qed

lemma buildBounded_points_ordered:
  "pivot_partitions I pivot \<Longrightarrow> buildBounded I pivot bounds ps pl bd = Inr n \<Longrightarrow>
     mset (points n) = mset ps \<and> ordered I n"
proof (induction I pivot bounds ps pl bd arbitrary: n rule: buildBounded.induct)
  case (1 I pivot bounds ps plane bd)
  note pv = "1.prems"(1) and bld = "1.prems"(2)
  show ?case
  proof (cases "ps = []")
    case True
    with bld show ?thesis by (subst (asm) buildBounded.simps) auto
  next
    case False
    obtain ps' piv where pp: "pivot ps plane = (ps', piv)"
      by (cases "pivot ps plane")
    have post: "mset ps' = mset ps" "0 \<le> piv" "piv < int (length ps')"
      "\<forall>x \<in> set (take (nat piv) ps'). Compare I x (ps' ! nat piv) plane \<le> 0"
      "\<forall>x \<in> set (drop (nat piv + 1) ps'). Compare I x (ps' ! nat piv) plane > 0"
      using pv [unfolded pivot_partitions_def, rule_format, OF False, of plane]
      unfolding pp by simp_all
    have len: "length ps' = length ps"
      using post(1) by (metis size_mset)
    have guard: "\<not> (length ps' \<noteq> length ps \<or> piv < 0 \<or> int (length ps') \<le> piv)"
      using len post by simp
    from bld False pp guard obtain np l r b where
      np: "go_rem (plane + 1) (Dims I (ps' ! nat piv)) = Inr np" and
      l: "buildBounded I pivot bounds (take (nat piv) ps') np bd = Inr l" and
      r: "buildBounded I pivot bounds (drop (nat piv + 1) ps') np bd = Inr r" and
      n: "n = Node (ps' ! nat piv) plane l r b"
      by (subst (asm) buildBounded.simps) (auto split: sum.splits simp: Let_def)
    have il: "mset (points l) = mset (take (nat piv) ps') \<and> ordered I l"
      using "1.IH"(1) [OF False pp [symmetric] guard np refl pv l] by simp
    have ir: "mset (points r) = mset (drop (nat piv + 1) ps') \<and> ordered I r"
      using "1.IH"(2) [OF False pp [symmetric] guard np refl l pv r] by simp
    have sl: "set (points l) = set (take (nat piv) ps')"
      using il by (metis set_mset_mset)
    have sr: "set (points r) = set (drop (nat piv + 1) ps')"
      using ir by (metis set_mset_mset)
    have lt: "nat piv < length ps'" using post by simp
    have "mset (take (nat piv) ps' @ ps' ! nat piv # drop (Suc (nat piv)) ps') = mset ps'"
      using id_take_nth_drop [OF lt] by (rule arg_cong [where f = mset, symmetric])
    then have "mset (points n) = mset ps"
      using il ir n post(1) by simp
    moreover have "ordered I n"
      using n il ir sl sr post by simp
    ultimately show ?thesis by simp
  qed
qed

lemma build_total:
  "pivot_partitions I pivot \<Longrightarrow> \<forall>p. Dims I p \<noteq> 0 \<Longrightarrow> \<exists>n. build I pivot ps pl = Inr n"
proof (induction I pivot ps pl rule: build.induct)
  case (1 I pivot ps plane)
  note pv = "1.prems"(1) and dims = "1.prems"(2)
  show ?case
  proof (cases "ps = []")
    case True
    then show ?thesis by (subst build.simps) simp
  next
    case False
    obtain ps' piv where pp: "pivot ps plane = (ps', piv)"
      by (cases "pivot ps plane")
    have post: "mset ps' = mset ps" "0 \<le> piv" "piv < int (length ps')"
      using pv [unfolded pivot_partitions_def, rule_format, OF False, of plane]
      unfolding pp by simp_all
    have len: "length ps' = length ps"
      using post(1) by (metis size_mset)
    have guard: "\<not> (length ps' \<noteq> length ps \<or> piv < 0 \<or> int (length ps') \<le> piv)"
      using len post by simp
    obtain np where np: "go_rem (plane + 1) (Dims I (ps' ! nat piv)) = Inr np"
      using dims by (auto simp: go_rem_def)
    obtain l where l: "build I pivot (take (nat piv) ps') np = Inr l"
      using "1.IH"(1) [OF False pp [symmetric] guard np pv dims] by blast
    obtain r where r: "build I pivot (drop (nat piv + 1) ps') np = Inr r"
      using "1.IH"(2) [OF False pp [symmetric] guard np l pv dims] by blast
    show ?thesis
      using False pp guard np l r by (subst build.simps) simp
  qed
qed

lemma buildBounded_total:
  "pivot_partitions I pivot \<Longrightarrow> \<forall>p. Dims I p \<noteq> 0 \<Longrightarrow>
     \<exists>n. buildBounded I pivot bounds ps pl bd = Inr n"
proof (induction I pivot bounds ps pl bd rule: buildBounded.induct)
  case (1 I pivot bounds ps plane bd)
  note pv = "1.prems"(1) and dims = "1.prems"(2)
  show ?case
  proof (cases "ps = []")
    case True
    then show ?thesis by (subst buildBounded.simps) simp
  next
    case False
    obtain ps' piv where pp: "pivot ps plane = (ps', piv)"
      by (cases "pivot ps plane")
    have post: "mset ps' = mset ps" "0 \<le> piv" "piv < int (length ps')"
      using pv [unfolded pivot_partitions_def, rule_format, OF False, of plane]
      unfolding pp by simp_all
    have len: "length ps' = length ps"
      using post(1) by (metis size_mset)
    have guard: "\<not> (length ps' \<noteq> length ps \<or> piv < 0 \<or> int (length ps') \<le> piv)"
      using len post by simp
    obtain np where np: "go_rem (plane + 1) (Dims I (ps' ! nat piv)) = Inr np"
      using dims by (auto simp: go_rem_def)
    obtain l where l: "buildBounded I pivot bounds (take (nat piv) ps') np bd = Inr l"
      using "1.IH"(1) [OF False pp [symmetric] guard np refl pv dims] by blast
    obtain r where r: "buildBounded I pivot bounds (drop (nat piv + 1) ps') np bd = Inr r"
      using "1.IH"(2) [OF False pp [symmetric] guard np refl l pv dims] by blast
    show ?thesis
      using False pp guard np l r by (subst buildBounded.simps) (simp add: Let_def)
  qed
qed

lemma New_ordered:
  "pivot_partitions I pivot \<Longrightarrow> New I pivot bounder ps bd = Inr t \<Longrightarrow> ordered I (Root t)"
  unfolding New_def
  by (auto split: option.splits if_splits sum.splits
      dest: build_points_ordered buildBounded_points_ordered)

lemma New_total:
  assumes "pivot_partitions I pivot" "\<forall>p. Dims I p \<noteq> 0"
  shows "\<exists>t. New I pivot bounder ps bd = Inr t"
proof -
  obtain n where n: "build I pivot ps 0 = Inr n"
    using build_total [OF assms] by blast
  show ?thesis
  proof (cases bounder)
    case None
    with n show ?thesis by (simp add: New_def)
  next
    case (Some bounds)
    obtain m where "buildBounded I pivot bounds ps 0 bd = Inr m"
      using buildBounded_total [OF assms] by blast
    with n Some show ?thesis by (cases bd) (simp_all add: New_def)
  qed
qed

lemma Inserts_ordered:
  "Inserts I t cs = Inr t' \<Longrightarrow> ordered I (Root t) \<Longrightarrow> ordered I (Root t')"
proof (induction cs arbitrary: t)
  case Nil
  then show ?case by simp
next
  case (Cons a cs)
  obtain c bd where a: "a = (c, bd)" by (cases a)
  from Cons.prems(1) a obtain t1 where
    t1: "Insert I t c bd = Inr t1" and rest: "Inserts I t1 cs = Inr t'"
    by (auto split: sum.splits)
  show ?case
    using Cons.IH [OF rest] Insert_ordered [OF t1 Cons.prems(2)] by simp
qed

lemma Inserts_total:
  "\<forall>p. Dims I p \<noteq> 0 \<Longrightarrow> \<exists>t'. Inserts I t cs = Inr t'"
proof (induction cs arbitrary: t)
  case Nil
  then show ?case by simp
next
  case (Cons a cs)
  obtain c bd where a: "a = (c, bd)" by (cases a)
  obtain t1 where t1: "Insert I t c bd = Inr t1"
    using Insert_total [of I c t bd] Cons.prems by blast
  show ?case
    using Cons.IH [OF Cons.prems, of t1] a t1 by simp
qed

text \<open>
  C6. When \<open>Pivot\<close> keeps its postcondition, the tree that \<open>New\<close> builds and the tree after
  every sequence of insertions into it are ordered: at every node \<open>n\<close> with plane \<open>d\<close>, each
  point \<open>p\<close> of the left subtree has \<open>p.Compare(n.Point, d) \<le> 0\<close> and each point \<open>p\<close> of the
  right subtree has \<open>p.Compare(n.Point, d) > 0\<close>. Construction and insertions return (no
  point having zero dimensions).
\<close>

theorem ordering_invariant:
  assumes "pivot_partitions I pivot" and "\<forall>p. Dims I p \<noteq> 0"
  shows "\<exists>t0 t. New I pivot bounder ps bounding = Inr t0 \<and> Inserts I t0 cs = Inr t \<and>
           ordered I (Root t0) \<and> ordered I (Root t)"
proof -
  obtain t0 where t0: "New I pivot bounder ps bounding = Inr t0"
    using New_total [OF assms] by blast
  obtain t where t: "Inserts I t0 cs = Inr t"
    using Inserts_total [OF assms(2)] by blast
  have o0: "ordered I (Root t0)"
    using New_ordered [OF assms(1) t0] .
  from t0 t o0 Inserts_ordered [OF t o0] show ?thesis by blast
qed

lemma pivot2_partitions: "pivot_partitions plane_points pivot2"
  unfolding pivot_partitions_def
proof (intro allI impI)
  fix ps :: "point2 list" and pl :: int
  assume "ps \<noteq> []"
  then obtain x xs where ps: "ps = x # xs" by (cases ps) auto
  let ?A = "filter (\<lambda>y. coord2 y pl \<le> coord2 x pl) xs"
  let ?B = "filter (\<lambda>y. \<not> coord2 y pl \<le> coord2 x pl) xs"
  have pv: "pivot2 ps pl = (?A @ x # ?B, int (length ?A))"
    by (simp add: pivot2_def ps)
  have m: "mset (?A @ x # ?B) = mset ps"
    by (simp add: ps)
  have nth: "(?A @ x # ?B) ! length ?A = x"
    by (simp add: nth_append)
  show "case pivot2 ps pl of
         (ps', piv) \<Rightarrow>
           mset ps' = mset ps \<and> 0 \<le> piv \<and> piv < int (length ps') \<and>
           (\<forall>x \<in> set (take (nat piv) ps'). Compare plane_points x (ps' ! nat piv) pl \<le> 0) \<and>
           (\<forall>x \<in> set (drop (nat piv + 1) ps'). Compare plane_points x (ps' ! nat piv) pl > 0)"
    unfolding pv using m nth
    by (auto simp: plane_points_def simp del: mset_append mset.simps)
qed

lemma New3: "New plane_points pivot2 None [P2 True 2 3, P2 True 5 4, P2 True 1 6] False
  = Inr \<lparr>Root = Node (P2 True 2 3) 0 (Node (P2 True 1 6) 1 nil nil None) (Node (P2 True 5 4) 1 nil nil None) None, Count = 3\<rparr>"
  by (simp add: New_def build.simps pivot2_def plane_points_def coord2_def go_rem_def)

lemma Ins3: "Inserts plane_points \<lparr>Root = Node (P2 True 2 3) 0 (Node (P2 True 1 6) 1 nil nil None) (Node (P2 True 5 4) 1 nil nil None) None, Count = 3\<rparr>
    [(P2 False 5 5, True), (P2 True 2 1, False)]
  = Inr \<lparr>Root = Node (P2 True 2 3) 0 (Node (P2 True 1 6) 1 (Node (P2 True 2 1) 0 nil nil None) nil None)
      (Node (P2 True 5 4) 1 nil (Node (P2 False 5 5) 0 nil nil None) None) None, Count = 5\<rparr>"
  by (simp add: Insert_def plane_points_def coord2_def go_rem_def)

theorem ordering_invariant_witness:
  "pivot_partitions plane_points pivot2 \<and> (\<forall>p. Dims plane_points p \<noteq> 0) \<and>
   New plane_points pivot2 None [P2 True 2 3, P2 True 5 4, P2 True 1 6] False
     = Inr \<lparr>Root = Node (P2 True 2 3) 0 (Node (P2 True 1 6) 1 nil nil None)
                      (Node (P2 True 5 4) 1 nil nil None) None, Count = 3\<rparr> \<and>
   Inserts plane_points
     \<lparr>Root = Node (P2 True 2 3) 0 (Node (P2 True 1 6) 1 nil nil None)
               (Node (P2 True 5 4) 1 nil nil None) None, Count = 3\<rparr>
     [(P2 False 5 5, True), (P2 True 2 1, False)]
     = Inr \<lparr>Root = Node (P2 True 2 3) 0
                      (Node (P2 True 1 6) 1 (Node (P2 True 2 1) 0 nil nil None) nil None)
                      (Node (P2 True 5 4) 1 nil (Node (P2 False 5 5) 0 nil nil None) None) None,
            Count = 5\<rparr> \<and>
   ordered plane_points
     (Node (P2 True 2 3) 0 (Node (P2 True 1 6) 1 (Node (P2 True 2 1) 0 nil nil None) nil None)
        (Node (P2 True 5 4) 1 nil (Node (P2 False 5 5) 0 nil nil None) None) None)"
proof -
  have d: "\<forall>p. Dims plane_points p \<noteq> 0"
    by (simp add: plane_points_def)
  from ordering_invariant [OF pivot2_partitions d, of None
      "[P2 True 2 3, P2 True 5 4, P2 True 1 6]" False "[(P2 False 5 5, True), (P2 True 2 1, False)]"]
  obtain t0 t where
    t0: "New plane_points pivot2 None [P2 True 2 3, P2 True 5 4, P2 True 1 6] False = Inr t0" and
    t: "Inserts plane_points t0 [(P2 False 5 5, True), (P2 True 2 1, False)] = Inr t" and
    o: "ordered plane_points (Root t)"
    by blast
  from t0 have t0': "t0 = \<lparr>Root = Node (P2 True 2 3) 0 (Node (P2 True 1 6) 1 nil nil None)
      (Node (P2 True 5 4) 1 nil nil None) None, Count = 3\<rparr>"
    unfolding New3 by simp
  from t have "t = \<lparr>Root = Node (P2 True 2 3) 0
                      (Node (P2 True 1 6) 1 (Node (P2 True 2 1) 0 nil nil None) nil None)
                      (Node (P2 True 5 4) 1 nil (Node (P2 False 5 5) 0 nil nil None) None) None,
            Count = 5\<rparr>"
    unfolding t0' Ins3 by simp
  with o have "ordered plane_points
     (Node (P2 True 2 3) 0 (Node (P2 True 1 6) 1 (Node (P2 True 2 1) 0 nil nil None) nil None)
        (Node (P2 True 5 4) 1 nil (Node (P2 False 5 5) 0 nil nil None) None) None)"
    by simp
  then show ?thesis
    using pivot2_partitions d New3 Ins3 by blast
qed

subsection \<open>The planes of a tree\<close>

lemma go_rem_mod: "0 \<le> a \<Longrightarrow> 0 < b \<Longrightarrow> go_rem a b = Inr (a mod b)"
  by (cases "a = 0") (simp_all add: go_rem_def)

lemma planes_fit_uniform:
  assumes "\<forall>p. Dims I p = k"
  shows "planes_fit I (Node p pl l r b) \<longleftrightarrow> 0 \<le> pl \<and> pl < k \<and> planes_fit I l \<and> planes_fit I r"
  using assms by auto

lemma insert_node_planes:
  assumes k: "\<forall>p. Dims I p = k" "0 < k"
  shows "insert_node I n c d = Inr n' \<Longrightarrow> planes_fit I n \<Longrightarrow> 0 \<le> d \<Longrightarrow> d < k \<Longrightarrow>
           planes_fit I n'"
proof (induction n arbitrary: d n')
  case nil
  then show ?case using k by auto
next
  case (Node p pl l r b)
  have pl: "0 \<le> pl" "pl < k" and fl: "planes_fit I l" and fr: "planes_fit I r"
    using Node.prems(2) planes_fit_uniform [OF k(1)] by blast+
  have rem: "go_rem (pl + 1) (Dims I c) = Inr ((pl + 1) mod k)"
    using go_rem_mod [of "pl + 1" k] pl k by simp
  have d': "0 \<le> (pl + 1) mod k" "(pl + 1) mod k < k"
    using k(2) by simp_all
  show ?case
  proof (cases "Compare I c p pl \<le> 0")
    case True
    with Node.prems(1) rem obtain l' where
      l': "insert_node I l c ((pl + 1) mod k) = Inr l'" and n': "n' = Node p pl l' r b"
      by (auto split: sum.splits)
    show ?thesis
      unfolding n' planes_fit_uniform [OF k(1)]
      using Node.IH(1) [OF l' fl d'] pl fr by simp
  next
    case False
    with Node.prems(1) rem obtain r' where
      r': "insert_node I r c ((pl + 1) mod k) = Inr r'" and n': "n' = Node p pl l r' b"
      by (auto split: sum.splits)
    show ?thesis
      unfolding n' planes_fit_uniform [OF k(1)]
      using Node.IH(2) [OF r' fr d'] pl fl by simp
  qed
qed

lemma insertBounded_planes:
  assumes k: "\<forall>p. Dims I p = k" "0 < k"
  shows "insertBounded I n c ext d bd = Inr n' \<Longrightarrow> planes_fit I n \<Longrightarrow> 0 \<le> d \<Longrightarrow> d < k \<Longrightarrow>
           planes_fit I n'"
proof (induction n arbitrary: d n')
  case nil
  then show ?case using k by auto
next
  case (Node p pl l r b)
  have pl: "0 \<le> pl" "pl < k" and fl: "planes_fit I l" and fr: "planes_fit I r"
    using Node.prems(2) planes_fit_uniform [OF k(1)] by blast+
  have rem: "go_rem (pl + 1) (Dims I c) = Inr ((pl + 1) mod k)"
    using go_rem_mod [of "pl + 1" k] pl k by simp
  have d': "0 \<le> (pl + 1) mod k" "(pl + 1) mod k < k"
    using k(2) by simp_all
  show ?case
  proof (cases "Compare I c p pl \<le> 0")
    case True
    with Node.prems(1) rem obtain l' b' where
      l': "insertBounded I l c ext ((pl + 1) mod k) bd = Inr l'" and n': "n' = Node p pl l' r b'"
      by (auto split: sum.splits simp: Let_def)
    show ?thesis
      unfolding n' planes_fit_uniform [OF k(1)]
      using Node.IH(1) [OF l' fl d'] pl fr by simp
  next
    case False
    with Node.prems(1) rem obtain r' b' where
      r': "insertBounded I r c ext ((pl + 1) mod k) bd = Inr r'" and n': "n' = Node p pl l r' b'"
      by (auto split: sum.splits simp: Let_def)
    show ?thesis
      unfolding n' planes_fit_uniform [OF k(1)]
      using Node.IH(2) [OF r' fr d'] pl fl by simp
  qed
qed

lemma clear_Bounding_planes [simp]: "planes_fit I (clear_Bounding n) = planes_fit I n"
  by (cases n) simp_all

lemma Insert_planes:
  assumes k: "\<forall>p. Dims I p = k" "0 < k"
    and ins: "Insert I t c bd = Inr t'" and fit: "planes_fit I (Root t)"
  shows "planes_fit I (Root t')"
proof -
  note a = insert_node_planes [OF k, of _ c 0] insertBounded_planes [OF k, of _ c _ 0]
  show ?thesis
    using ins fit k(2) unfolding Insert_def Let_def
    by (auto simp: k(1) [rule_format] split: option.splits sum.splits if_splits dest: a
        dest!: insert_node_planes [OF k, where n = "clear_Bounding (Root t)", simplified])
qed

lemma build_planes:
  assumes k: "\<forall>p. Dims I p = k" "0 < k"
  shows "build I pivot ps pl = Inr n \<Longrightarrow> 0 \<le> pl \<Longrightarrow> pl < k \<Longrightarrow> planes_fit I n"
  using k
proof (induction I pivot ps pl arbitrary: n rule: build.induct)
  case (1 I pivot ps plane)
  note bld = "1.prems"(1) and pl = "1.prems"(2,3) and k = "1.prems"(4,5)
  show ?case
  proof (cases "ps = []")
    case True
    with bld show ?thesis by (subst (asm) build.simps) auto
  next
    case False
    obtain ps' piv where pp: "pivot ps plane = (ps', piv)"
      by (cases "pivot ps plane")
    show ?thesis
    proof (cases "length ps' \<noteq> length ps \<or> piv < 0 \<or> int (length ps') \<le> piv")
      case True
      with bld False pp show ?thesis by (subst (asm) build.simps) auto
    next
      case guard: False
      have rem: "go_rem (plane + 1) (Dims I (ps' ! nat piv)) = Inr ((plane + 1) mod k)"
        using go_rem_mod [of "plane + 1" k] pl k by simp
      have d': "0 \<le> (plane + 1) mod k" "(plane + 1) mod k < k"
        using k(2) by simp_all
      from bld False pp guard rem obtain l r where
        l: "build I pivot (take (nat piv) ps') ((plane + 1) mod k) = Inr l" and
        r: "build I pivot (drop (nat piv + 1) ps') ((plane + 1) mod k) = Inr r" and
        n: "n = Node (ps' ! nat piv) plane l r None"
        by (subst (asm) build.simps) (auto split: sum.splits)
      show ?thesis
        unfolding n planes_fit_uniform [OF k(1)]
        using "1.IH"(1) [OF False pp [symmetric] guard rem l d' k]
          "1.IH"(2) [OF False pp [symmetric] guard rem l r d' k] pl by simp
    qed
  qed
qed

lemma buildBounded_planes:
  assumes k: "\<forall>p. Dims I p = k" "0 < k"
  shows "buildBounded I pivot bounds ps pl bd = Inr n \<Longrightarrow> 0 \<le> pl \<Longrightarrow> pl < k \<Longrightarrow>
           planes_fit I n"
  using k
proof (induction I pivot bounds ps pl bd arbitrary: n rule: buildBounded.induct)
  case (1 I pivot bounds ps plane bd)
  note bld = "1.prems"(1) and pl = "1.prems"(2,3) and k = "1.prems"(4,5)
  show ?case
  proof (cases "ps = []")
    case True
    with bld show ?thesis by (subst (asm) buildBounded.simps) auto
  next
    case False
    obtain ps' piv where pp: "pivot ps plane = (ps', piv)"
      by (cases "pivot ps plane")
    show ?thesis
    proof (cases "length ps' \<noteq> length ps \<or> piv < 0 \<or> int (length ps') \<le> piv")
      case True
      with bld False pp show ?thesis by (subst (asm) buildBounded.simps) auto
    next
      case guard: False
      have rem: "go_rem (plane + 1) (Dims I (ps' ! nat piv)) = Inr ((plane + 1) mod k)"
        using go_rem_mod [of "plane + 1" k] pl k by simp
      have d': "0 \<le> (plane + 1) mod k" "(plane + 1) mod k < k"
        using k(2) by simp_all
      from bld False pp guard rem obtain l r b where
        l: "buildBounded I pivot bounds (take (nat piv) ps') ((plane + 1) mod k) bd = Inr l" and
        r: "buildBounded I pivot bounds (drop (nat piv + 1) ps') ((plane + 1) mod k) bd = Inr r" and
        n: "n = Node (ps' ! nat piv) plane l r b"
        by (subst (asm) buildBounded.simps) (auto split: sum.splits simp: Let_def)
      show ?thesis
        unfolding n planes_fit_uniform [OF k(1)]
        using "1.IH"(1) [OF False pp [symmetric] guard rem refl l d' k]
          "1.IH"(2) [OF False pp [symmetric] guard rem refl l r d' k] pl by simp
    qed
  qed
qed

lemma New_planes:
  assumes "\<forall>p. Dims I p = k" "0 < k" "New I pivot bounder ps bd = Inr t"
  shows "planes_fit I (Root t)"
  using assms(3,2) build_planes [OF assms(1,2), of pivot ps 0]
    buildBounded_planes [OF assms(1,2), of pivot _ ps 0]
  unfolding New_def
  by (auto split: option.splits if_splits sum.splits)

lemma Inserts_planes:
  assumes k: "\<forall>p. Dims I p = k" "0 < k"
  shows "Inserts I t cs = Inr t' \<Longrightarrow> planes_fit I (Root t) \<Longrightarrow> planes_fit I (Root t')"
proof (induction cs arbitrary: t)
  case Nil
  then show ?case by simp
next
  case (Cons a cs)
  obtain c bd where a: "a = (c, bd)" by (cases a)
  from Cons.prems(1) a obtain t1 where
    t1: "Insert I t c bd = Inr t1" and rest: "Inserts I t1 cs = Inr t'"
    by (auto split: sum.splits)
  show ?case
    using Cons.IH [OF rest] Insert_planes [OF k t1 Cons.prems(2)] by simp
qed

text \<open>
  The planes of a tree. When every point has the same number \<open>k > 0\<close> of dimensions and
  \<open>Pivot\<close> keeps its postcondition, construction and every sequence of insertions return,
  and in the trees they yield the plane of every node is an index between \<open>0\<close> and \<open>k - 1\<close>.
\<close>

theorem planes_invariant:
  assumes "pivot_partitions I pivot" and "\<forall>p. Dims I p = k" and "0 < k"
  shows "\<exists>t0 t. New I pivot bounder ps bounding = Inr t0 \<and> Inserts I t0 cs = Inr t \<and>
           planes_fit I (Root t0) \<and> planes_fit I (Root t)"
proof -
  have d: "\<forall>p. Dims I p \<noteq> 0"
    using assms(2,3) by simp
  obtain t0 where t0: "New I pivot bounder ps bounding = Inr t0"
    using New_total [OF assms(1) d] by blast
  obtain t where t: "Inserts I t0 cs = Inr t"
    using Inserts_total [OF d] by blast
  have p0: "planes_fit I (Root t0)"
    using New_planes [OF assms(2,3) t0] .
  from t0 t p0 Inserts_planes [OF assms(2,3) t p0] show ?thesis by blast
qed

theorem planes_invariant_witness:
  "pivot_partitions plane_points pivot2 \<and> (\<forall>p. Dims plane_points p = 2) \<and> (0::int) < 2 \<and>
   New plane_points pivot2 None [P2 True 2 3, P2 True 5 4, P2 True 1 6] False
     = Inr \<lparr>Root = Node (P2 True 2 3) 0 (Node (P2 True 1 6) 1 nil nil None)
                      (Node (P2 True 5 4) 1 nil nil None) None, Count = 3\<rparr> \<and>
   Inserts plane_points
     \<lparr>Root = Node (P2 True 2 3) 0 (Node (P2 True 1 6) 1 nil nil None)
               (Node (P2 True 5 4) 1 nil nil None) None, Count = 3\<rparr>
     [(P2 False 5 5, True), (P2 True 2 1, False)]
     = Inr \<lparr>Root = Node (P2 True 2 3) 0
                      (Node (P2 True 1 6) 1 (Node (P2 True 2 1) 0 nil nil None) nil None)
                      (Node (P2 True 5 4) 1 nil (Node (P2 False 5 5) 0 nil nil None) None) None,
            Count = 5\<rparr> \<and>
   planes_fit plane_points
     (Node (P2 True 2 3) 0 (Node (P2 True 1 6) 1 (Node (P2 True 2 1) 0 nil nil None) nil None)
        (Node (P2 True 5 4) 1 nil (Node (P2 False 5 5) 0 nil nil None) None) None)"
proof -
  have d: "\<forall>p. Dims plane_points p = 2"
    by (simp add: plane_points_def)
  from planes_invariant [OF pivot2_partitions d, of None
      "[P2 True 2 3, P2 True 5 4, P2 True 1 6]" False "[(P2 False 5 5, True), (P2 True 2 1, False)]"]
  obtain t0 t where
    t0: "New plane_points pivot2 None [P2 True 2 3, P2 True 5 4, P2 True 1 6] False = Inr t0" and
    t: "Inserts plane_points t0 [(P2 False 5 5, True), (P2 True 2 1, False)] = Inr t" and
    o: "planes_fit plane_points (Root t)"
    by auto
  from t0 have t0': "t0 = \<lparr>Root = Node (P2 True 2 3) 0 (Node (P2 True 1 6) 1 nil nil None)
      (Node (P2 True 5 4) 1 nil nil None) None, Count = 3\<rparr>"
    unfolding New3 by simp
  from t have "t = \<lparr>Root = Node (P2 True 2 3) 0
                      (Node (P2 True 1 6) 1 (Node (P2 True 2 1) 0 nil nil None) nil None)
                      (Node (P2 True 5 4) 1 nil (Node (P2 False 5 5) 0 nil nil None) None) None,
            Count = 5\<rparr>"
    unfolding t0' Ins3 by simp
  with o have "planes_fit plane_points
     (Node (P2 True 2 3) 0 (Node (P2 True 1 6) 1 (Node (P2 True 2 1) 0 nil nil None) nil None)
        (Node (P2 True 5 4) 1 nil (Node (P2 False 5 5) 0 nil nil None) None) None)"
    by simp
  then show ?thesis
    using pivot2_partitions d New3 Ins3 by simp
qed

subsection \<open>The nearest neighbour\<close>

lemma prune_right:
  assumes "coordinates I coord" "Compare I q p pl \<le> 0" "0 < Compare I x p pl"
  shows "Compare I q p pl * Compare I q p pl \<le> Distance I q x"
proof -
  have c: "\<And>a b d. Compare I a b d = coord a d - coord b d"
    and d: "\<And>a b d. (coord a d - coord b d)\<^sup>2 \<le> Distance I a b"
    using assms(1) by (simp_all add: coordinates_def)
  have "\<bar>coord q pl - coord p pl\<bar> \<le> \<bar>coord q pl - coord x pl\<bar>"
    using assms(2,3) by (simp add: c)
  then have "(coord q pl - coord p pl)\<^sup>2 \<le> (coord q pl - coord x pl)\<^sup>2"
    by (simp only: abs_le_square_iff)
  also have "\<dots> \<le> Distance I q x"
    by (rule d)
  finally show ?thesis
    by (simp add: c power2_eq_square)
qed

lemma prune_left:
  assumes "coordinates I coord" "0 < Compare I q p pl" "Compare I x p pl \<le> 0"
  shows "Compare I q p pl * Compare I q p pl \<le> Distance I q x"
proof -
  have c: "\<And>a b d. Compare I a b d = coord a d - coord b d"
    and d: "\<And>a b d. (coord a d - coord b d)\<^sup>2 \<le> Distance I a b"
    using assms(1) by (simp_all add: coordinates_def)
  have "\<bar>coord q pl - coord p pl\<bar> \<le> \<bar>coord q pl - coord x pl\<bar>"
    using assms(2,3) by (simp add: c)
  then have "(coord q pl - coord p pl)\<^sup>2 \<le> (coord q pl - coord x pl)\<^sup>2"
    by (simp only: abs_le_square_iff)
  also have "\<dots> \<le> Distance I q x"
    by (rule d)
  finally show ?thesis
    by (simp add: c power2_eq_square)
qed

text \<open>The two recursive calls of a node, whichever comes first, seen from the node.\<close>

lemma found_node:
  fixes near far :: "'p node"
  assumes pts: "set (points n) = insert p (set (points near) \<union> set (points far))"
    and n: "n \<noteq> nil" "Point n = p"
    and d1: "d1 = min D (Fin (Distance I q p))"
    and near: "found I q near d1 rnear"
    and d2: "res2 = (if snd rnear < d1 then rnear else (n, d1))"
    and far: "Fin (c * c) \<le> snd res2 \<Longrightarrow> found I q far (snd res2) rfar"
    and pruned: "\<And>x. x \<in> set (points far) \<Longrightarrow> c * c \<le> Distance I q x"
    and res: "res = (if Fin (c * c) \<le> snd res2
                     then (if snd rfar < snd res2 then rfar else res2) else res2)"
  shows "found I q n D res"
proof -
  have s2: "snd res2 = min d1 (snd rnear)"
    using d2 by (auto simp: min_def)
  have le2: "snd res2 \<le> d1" "d1 \<le> D" "d1 \<le> Fin (Distance I q p)"
    unfolding s2 d1 by (rule min.cobounded1, rule min.cobounded1, rule min.cobounded2)
  have nearx: "\<And>x. x \<in> set (points near) \<Longrightarrow> snd res2 \<le> Fin (Distance I q x)"
    using near s2 by (simp add: found_def)
  have w2: "snd res2 < D \<Longrightarrow> fst res2 \<noteq> nil \<and> Point (fst res2) \<in> set (points n) \<and>
              snd res2 = Fin (Distance I q (Point (fst res2)))"
  proof (cases "snd rnear < d1")
    case True
    then show ?thesis
      using near d2 pts by (simp add: found_def)
  next
    case False
    assume "snd res2 < D"
    with False d2 have "d1 < D" by simp
    then have "d1 = Fin (Distance I q p)"
      using d1 by (simp add: min_def split: if_splits)
    with False d2 n pts show ?thesis by simp
  qed
  show ?thesis
  proof (cases "Fin (c * c) \<le> snd res2")
    case True
    note f = far [OF True]
    have s: "snd res = min (snd res2) (snd rfar)"
      using res True by (auto simp: min_def)
    have farx: "\<And>x. x \<in> set (points far) \<Longrightarrow> snd res \<le> Fin (Distance I q x)"
      using f s by (simp add: found_def)
    have sle: "snd res \<le> snd res2"
      unfolding s by (rule min.cobounded1)
    have all: "\<forall>x \<in> set (points n). min D (snd res) \<le> Fin (Distance I q x)"
      unfolding pts using sle le2 nearx farx
      by (auto intro: min.coboundedI2 order_trans)
    have w: "snd res < D \<longrightarrow> fst res \<noteq> nil \<and> Point (fst res) \<in> set (points n) \<and>
              snd res = Fin (Distance I q (Point (fst res)))"
    proof (cases "snd rfar < snd res2")
      case True
      with f res \<open>Fin (c * c) \<le> snd res2\<close> pts show ?thesis
        by (simp add: found_def)
    next
      case False
      with res \<open>Fin (c * c) \<le> snd res2\<close> have "res = res2" by simp
      with w2 show ?thesis by simp
    qed
    from all w show ?thesis by (simp add: found_def)
  next
    case False
    with res have r: "res = res2" by simp
    have farx: "\<And>x. x \<in> set (points far) \<Longrightarrow> snd res2 \<le> Fin (Distance I q x)"
    proof -
      fix x assume "x \<in> set (points far)"
      then have "Fin (c * c) \<le> Fin (Distance I q x)"
        using pruned by simp
      with False show "snd res2 \<le> Fin (Distance I q x)"
        by (metis le_cases order_trans)
    qed
    have all: "\<forall>x \<in> set (points n). min D (snd res) \<le> Fin (Distance I q x)"
      unfolding pts r using le2 nearx farx
      by (auto intro: min.coboundedI2 order_trans)
    from all w2 r show ?thesis by (simp add: found_def)
  qed
qed

lemma search_found:
  assumes co: "coordinates I coord"
  shows "ordered I n \<Longrightarrow> found I q n D (search I n q D)"
proof (induction n arbitrary: D)
  case nil
  show ?case by (simp add: found_def)
next
  case (Node p pl l r b)
  let ?n = "Node p pl l r b"
  let ?c = "Compare I q p pl"
  let ?d1 = "min D (Fin (Distance I q p))"
  have ol: "ordered I l" and or: "ordered I r"
    and lx: "\<And>x. x \<in> set (points l) \<Longrightarrow> Compare I x p pl \<le> 0"
    and rx: "\<And>x. x \<in> set (points r) \<Longrightarrow> 0 < Compare I x p pl"
    using Node.prems by simp_all
  show ?case
  proof (cases "?c \<le> 0")
    case True
    let ?rl = "search I l q ?d1"
    let ?res2 = "if snd ?rl < ?d1 then ?rl else (?n, ?d1)"
    let ?rr = "search I r q (snd ?res2)"
    have "found I q ?n D
      (if Fin (?c * ?c) \<le> snd ?res2 then (if snd ?rr < snd ?res2 then ?rr else ?res2) else ?res2)"
    proof (rule found_node [where near = l and far = r and p = p and ?d1.0 = ?d1
          and rnear = ?rl and ?res2.0 = ?res2 and rfar = ?rr and c = ?c])
      show "set (points ?n) = insert p (set (points l) \<union> set (points r))" by auto
      show "found I q l ?d1 ?rl" by (rule Node.IH(1) [OF ol])
      show "found I q r (snd ?res2) ?rr" by (rule Node.IH(2) [OF or])
      show "?c * ?c \<le> Distance I q x" if "x \<in> set (points r)" for x
        using prune_right [OF co True rx [OF that]] .
    qed simp_all
    also have "(if Fin (?c * ?c) \<le> snd ?res2 then (if snd ?rr < snd ?res2 then ?rr else ?res2) else ?res2)
        = search I ?n q D"
      using True by (simp add: Let_def split: prod.splits)
    finally show ?thesis .
  next
    case False
    then have pos: "0 < ?c" by simp
    let ?rr = "search I r q ?d1"
    let ?res2 = "if snd ?rr < ?d1 then ?rr else (?n, ?d1)"
    let ?rl = "search I l q (snd ?res2)"
    have "found I q ?n D
      (if Fin (?c * ?c) \<le> snd ?res2 then (if snd ?rl < snd ?res2 then ?rl else ?res2) else ?res2)"
    proof (rule found_node [where near = r and far = l and p = p and ?d1.0 = ?d1
          and rnear = ?rr and ?res2.0 = ?res2 and rfar = ?rl and c = ?c])
      show "set (points ?n) = insert p (set (points r) \<union> set (points l))" by auto
      show "found I q r ?d1 ?rr" by (rule Node.IH(2) [OF or])
      show "found I q l (snd ?res2) ?rl" by (rule Node.IH(1) [OF ol])
      show "?c * ?c \<le> Distance I q x" if "x \<in> set (points l)" for x
        using prune_left [OF co pos lx [OF that]] .
    qed simp_all
    also have "(if Fin (?c * ?c) \<le> snd ?res2 then (if snd ?rl < snd ?res2 then ?rl else ?res2) else ?res2)
        = search I ?n q D"
      using False by (simp add: Let_def split: prod.splits)
    finally show ?thesis .
  qed
qed

text \<open>
  C1. On a tree that is not empty and is ordered, as every tree is that was built and
  grown by the package (\<open>ordering_invariant\<close>), and for points whose \<open>Compare\<close> and
  \<open>Distance\<close> are what \<open>Comparable\<close> documents, \<open>Nearest(q)\<close> returns a stored point together
  with its distance to \<open>q\<close>, and no stored point is nearer to \<open>q\<close>. A query that coincides
  with a stored point is no exception.
\<close>

theorem Nearest_is_nearest:
  assumes "coordinates I coord" and "ordered I (Root t)" and "Root t \<noteq> nil"
  shows "\<exists>p. Nearest I t q = (Some p, Fin (Distance I q p)) \<and>
             p \<in> set (points (Root t)) \<and>
             (\<forall>x \<in> set (points (Root t)). Distance I q p \<le> Distance I q x)"
proof -
  obtain p0 pl l r b where root: "Root t = Node p0 pl l r b"
    using assms(3) by (cases "Root t") auto
  obtain bn d where res: "search I (Root t) q PInf = (bn, d)"
    by (cases "search I (Root t) q PInf")
  have f: "found I q (Root t) PInf (bn, d)"
    using search_found [OF assms(1,2), of q PInf] res by simp
  have "min PInf d \<le> Fin (Distance I q p0)"
    using f root by (simp add: found_def)
  then have fin: "d < PInf"
    by (cases d) (simp_all add: min_def)
  with f have bn: "bn \<noteq> nil" "Point bn \<in> set (points (Root t))"
    "d = Fin (Distance I q (Point bn))"
    by (simp_all add: found_def)
  have least: "\<forall>x \<in> set (points (Root t)). Distance I q (Point bn) \<le> Distance I q x"
  proof
    fix x assume "x \<in> set (points (Root t))"
    with f have "min PInf d \<le> Fin (Distance I q x)"
      by (simp add: found_def)
    with bn(3) show "Distance I q (Point bn) \<le> Distance I q x"
      by (simp add: min_def)
  qed
  have "Nearest I t q = (Some (Point bn), d)"
    using assms(3) res bn(1) by (cases bn) (simp_all add: Nearest_def)
  with bn least show ?thesis by simp
qed

lemma plane_coordinates: "coordinates plane_points coord2"
  by (auto simp: coordinates_def plane_points_def coord2_def)

lemma New6:
  "New plane_points pivot2 None
     [P2 True 2 3, P2 True 5 4, P2 True 9 6, P2 True 4 7, P2 True 8 1, P2 True 7 2] False
   = Inr \<lparr>Root = tree6, Count = 6\<rparr>"
  by (simp add: New_def build.simps pivot2_def plane_points_def coord2_def go_rem_def tree6_def)

lemma ordered6: "ordered plane_points tree6"
  by (simp add: tree6_def plane_points_def coord2_def)

lemma Nearest6:
  "Nearest plane_points \<lparr>Root = tree6, Count = 6\<rparr> (P2 False 9 2) = (Some (P2 True 8 1), Fin 2)"
  by (simp add: Nearest_def tree6_def plane_points_def coord2_def Let_def min_def)

lemma Nearest6_stored:
  "Nearest plane_points \<lparr>Root = tree6, Count = 6\<rparr> (P2 True 7 2) = (Some (P2 True 7 2), Fin 0)"
  by (simp add: Nearest_def tree6_def plane_points_def coord2_def Let_def min_def)

theorem Nearest_is_nearest_witness:
  "coordinates plane_points coord2 \<and>
   New plane_points pivot2 None
     [P2 True 2 3, P2 True 5 4, P2 True 9 6, P2 True 4 7, P2 True 8 1, P2 True 7 2] False
     = Inr \<lparr>Root = tree6, Count = 6\<rparr> \<and>
   ordered plane_points (Root \<lparr>Root = tree6, Count = 6\<rparr>) \<and>
   Root \<lparr>Root = tree6, Count = 6\<rparr> \<noteq> nil \<and>
   Nearest plane_points \<lparr>Root = tree6, Count = 6\<rparr> (P2 False 9 2) = (Some (P2 True 8 1), Fin 2) \<and>
   Distance plane_points (P2 False 9 2) (P2 True 8 1) = 2 \<and>
   P2 True 8 1 \<in> set (points tree6) \<and>
   list_all (\<lambda>x. Distance plane_points (P2 False 9 2) (P2 True 8 1)
                  \<le> Distance plane_points (P2 False 9 2) x) (points tree6) \<and>
   Nearest plane_points \<lparr>Root = tree6, Count = 6\<rparr> (P2 True 7 2) = (Some (P2 True 7 2), Fin 0) \<and>
   list_all (\<lambda>x. 0 \<le> Distance plane_points (P2 True 7 2) x) (points tree6)"
proof -
  have h2: "ordered plane_points (Root \<lparr>Root = tree6, Count = 6\<rparr>)"
    using ordered6 by simp
  have h3: "Root \<lparr>Root = tree6, Count = 6\<rparr> \<noteq> nil"
    by (simp add: tree6_def)
  from Nearest_is_nearest [OF plane_coordinates h2 h3, of "P2 False 9 2"]
  have 1: "Distance plane_points (P2 False 9 2) (P2 True 8 1) = 2 \<and>
      P2 True 8 1 \<in> set (points tree6) \<and>
      list_all (\<lambda>x. Distance plane_points (P2 False 9 2) (P2 True 8 1)
                  \<le> Distance plane_points (P2 False 9 2) x) (points tree6)"
    unfolding Nearest6 by (auto simp: list_all_iff)
  from Nearest_is_nearest [OF plane_coordinates h2 h3, of "P2 True 7 2"]
  have 2: "list_all (\<lambda>x. 0 \<le> Distance plane_points (P2 True 7 2) x) (points tree6)"
    unfolding Nearest6_stored by (auto simp: list_all_iff)
  note na = conjunct1 [OF 1] and nb = conjunct1 [OF conjunct2 [OF 1]]
    and nc = conjunct2 [OF conjunct2 [OF 1]]
  show ?thesis
    by (intro conjI, fact plane_coordinates, fact New6, fact h2, fact h3, fact Nearest6,
        fact na, fact nb, fact nc, fact Nearest6_stored, fact 2)
qed

subsection \<open>Queries on the empty tree\<close>

text \<open>
  C7. On the empty tree (the root is nil), for every query \<open>q\<close>: \<open>Nearest(q)\<close> returns a nil
  point together with \<open>+Inf\<close>, and for every \<open>n\<close>, \<open>NearestN(n, q)\<close> returns an empty sequence
  of points together with the sequence of distances that consists of \<open>+Inf\<close> alone.
\<close>

theorem empty_tree_queries:
  "Root t = nil \<Longrightarrow> Nearest I t q = (None, PInf) \<and> NearestN I t n q = Inr ([], [PInf])"
  by (simp add: Nearest_def NearestN_def)

theorem empty_tree_queries_witness:
  "Root \<lparr>Root = nil, Count = 0\<rparr> = (nil :: point2 node) \<and>
   Nearest plane_points \<lparr>Root = nil, Count = 0\<rparr> (P2 False 9 2) = (None, PInf) \<and>
   NearestN plane_points \<lparr>Root = nil, Count = 0\<rparr> 3 (P2 False 9 2) = Inr ([], [PInf])"
  using empty_tree_queries [of "\<lparr>Root = nil, Count = 0\<rparr>" plane_points "P2 False 9 2" 3]
  by simp

subsection \<open>\<open>NearestN\<close> for \<open>n < 1\<close>\<close>

text \<open>
  C10. For \<open>n < 1\<close>, \<open>NearestN(n, q)\<close> panics on every tree that is not empty, for every
  \<open>q\<close>: the buffer of candidates is made with length 1 and capacity \<open>n\<close>. On the empty tree
  the same call returns the result of the empty tree.
\<close>

theorem NearestN_nonpositive:
  "n < 1 \<Longrightarrow>
     (Root t \<noteq> nil \<longrightarrow> NearestN I t n q = Inl MakesliceCapOutOfRange) \<and>
     (Root t = nil \<longrightarrow> NearestN I t n q = Inr ([], [PInf]))"
  by (simp add: NearestN_def newNDists_def)

theorem NearestN_nonpositive_witness:
  "(0::int) < 1 \<and>
   Root \<lparr>Root = Node (P2 True 1 1) 0 nil nil None, Count = 1\<rparr> \<noteq> nil \<and>
   NearestN plane_points \<lparr>Root = Node (P2 True 1 1) 0 nil nil None, Count = 1\<rparr> 0 (P2 False 9 2)
     = Inl MakesliceCapOutOfRange \<and>
   Root \<lparr>Root = nil, Count = 0\<rparr> = (nil :: point2 node) \<and>
   NearestN plane_points \<lparr>Root = nil, Count = 0\<rparr> 0 (P2 False 9 2) = Inr ([], [PInf])"
  using NearestN_nonpositive
      [of 0 "\<lparr>Root = Node (P2 True 1 1) 0 nil nil None, Count = 1\<rparr>" plane_points "P2 False 9 2"]
    NearestN_nonpositive [of 0 "\<lparr>Root = nil, Count = 0\<rparr>" plane_points "P2 False 9 2"]
  by simp

subsection \<open>More neighbours asked for than points stored\<close>

text \<open>
  C2. The claim is that \<open>NearestN(n, q)\<close> returns \<open>min(n, Count)\<close> points and distances. The
  code does not when \<open>n\<close> exceeds \<open>Count\<close>: the entry \<open>(nil, +Inf)\<close> that \<open>newNDists\<close> puts into
  the heap is only evicted when the heap is full, so it is still there after the search, and
  the loop that reads \<open>n.Point\<close> of every entry dereferences its nil node. Here the tree
  holds the single point \<open>(5, 1)\<close> and two neighbours are asked for.
\<close>

theorem NearestN_beyond_Count_panics:
  "Insert plane_points \<lparr>Root = nil, Count = 0\<rparr> (P2 False 5 1) False = Inr single1 \<and>
   NearestN plane_points single1 1 (P2 False 0 0) = Inr ([P2 False 5 1], [Fin 26]) \<and>
   NearestN plane_points single1 2 (P2 False 0 0) = Inl NilDereference"
  by (simp add: Insert_def NearestN_def newNDists_def Keep_def heap_Push_def heap_Pop_def
      heap_up.simps heap_down.simps Less_def Swap_def single1_def plane_points_def coord2_def
      Let_def)

subsection \<open>What \<open>doBounded\<close> visits\<close>

lemma Contains_coord:
  assumes "coordinates I coord" "Contains I (Some (lo, hi)) x" "0 \<le> d" "d < Dims I x"
  shows "coord lo d \<le> coord x d \<and> coord x d \<le> coord hi d"
proof -
  have "d \<in> set [0 .. Dims I x - 1]"
    using assms(3,4) by simp
  then have "\<not> (Compare I x lo d < 0 \<or> Compare I x hi d > 0)"
    using assms(2) by (simp add: list_all_iff)
  then show ?thesis
    using assms(1) by (simp add: coordinates_def)
qed

lemma doBounded_visits:
  assumes co: "coordinates I coord"
  shows "n \<noteq> nil \<Longrightarrow> ordered I n \<Longrightarrow> planes_fit I n \<Longrightarrow>
     \<exists>vs. doBounded I visit_all b n depth s = Inr (False, s @ vs) \<and>
          subseq vs (filter (Contains I (Some b)) (points n)) \<and>
          (tie_free I n \<longrightarrow> vs = filter (Contains I (Some b)) (points n))"
proof (induction n arbitrary: depth s)
  case nil
  then show ?case by simp
next
  case (Node p pl l r bd)
  obtain lo hi where b: "b = (lo, hi)" by (cases b)
  let ?C = "Contains I (Some b)"
  let ?lc = "Compare I (fst b) p pl" and ?hc = "Compare I (snd b) p pl"
  have ol: "ordered I l" and or: "ordered I r" and pl: "planes_fit I l" and pr: "planes_fit I r"
    using Node.prems by simp_all
  have cmp: "\<And>a c d. Compare I a c d = coord a d - coord c d"
    using co by (simp add: coordinates_def)
  \<comment> \<open>the left subtree\<close>
  let ?L = "if ?lc < 0 \<and> l \<noteq> nil then doBounded I visit_all b l (depth + 1) s else Inr (False, s)"
  have "\<exists>vl. ?L = Inr (False, s @ vl) \<and> subseq vl (filter ?C (points l)) \<and>
          (tie_free I (Node p pl l r bd) \<longrightarrow> vl = filter ?C (points l))"
  proof (cases "?lc < 0 \<and> l \<noteq> nil")
    case True
    then show ?thesis
      using Node.IH(1) [OF _ ol pl, of "depth + 1" s] by auto
  next
    case False
    have "filter ?C (points l) = []" if tf: "tie_free I (Node p pl l r bd)"
    proof (cases "l = nil")
      case True
      then show ?thesis by simp
    next
      case False
      with \<open>\<not> (?lc < 0 \<and> l \<noteq> nil)\<close> have lc: "coord p pl \<le> coord lo pl"
        by (simp add: cmp b)
      have "\<not> ?C x" if x: "x \<in> set (points l)" for x
      proof
        assume "?C x"
        moreover have "0 \<le> pl" "pl < Dims I x"
          using Node.prems(3) x by auto
        ultimately have "coord lo pl \<le> coord x pl"
          using Contains_coord [OF co, of lo hi x pl] b by simp
        moreover have "coord x pl < coord p pl"
          using Node.prems(2) tf x by (fastforce simp: cmp)
        ultimately show False using lc by simp
      qed
      then show ?thesis by (simp add: filter_empty_conv)
    qed
    with False show ?thesis by auto
  qed
  then obtain vl where vl: "?L = Inr (False, s @ vl)" "subseq vl (filter ?C (points l))"
    "tie_free I (Node p pl l r bd) \<Longrightarrow> vl = filter ?C (points l)"
    by blast
  \<comment> \<open>the point of the node\<close>
  let ?vp = "if ?C p then [p] else []"
  \<comment> \<open>the right subtree\<close>
  let ?s2 = "s @ vl @ ?vp"
  let ?R = "if ?hc > 0 \<and> r \<noteq> nil then doBounded I visit_all b r (depth + 1) ?s2
            else Inr (False, ?s2)"
  have "\<exists>vr. ?R = Inr (False, ?s2 @ vr) \<and> subseq vr (filter ?C (points r)) \<and>
          (tie_free I (Node p pl l r bd) \<longrightarrow> vr = filter ?C (points r))"
  proof (cases "?hc > 0 \<and> r \<noteq> nil")
    case True
    then show ?thesis
      using Node.IH(2) [OF _ or pr, of "depth + 1" ?s2] by auto
  next
    case False
    have "filter ?C (points r) = []"
    proof (cases "r = nil")
      case True
      then show ?thesis by simp
    next
      case False
      with \<open>\<not> (?hc > 0 \<and> r \<noteq> nil)\<close> have hc: "coord hi pl \<le> coord p pl"
        by (simp add: cmp b)
      have "\<not> ?C x" if x: "x \<in> set (points r)" for x
      proof
        assume "?C x"
        moreover have "0 \<le> pl" "pl < Dims I x"
          using Node.prems(3) x by auto
        ultimately have "coord x pl \<le> coord hi pl"
          using Contains_coord [OF co, of lo hi x pl] b by simp
        moreover have "coord p pl < coord x pl"
          using Node.prems(2) x by (fastforce simp: cmp)
        ultimately show False using hc by simp
      qed
      then show ?thesis by (simp add: filter_empty_conv)
    qed
    with False show ?thesis by auto
  qed
  then obtain vr where vr: "?R = Inr (False, ?s2 @ vr)" "subseq vr (filter ?C (points r))"
    "tie_free I (Node p pl l r bd) \<Longrightarrow> vr = filter ?C (points r)"
    by blast
  have run: "doBounded I visit_all b (Node p pl l r bd) depth s = Inr (False, s @ (vl @ ?vp @ vr))"
    using vl(1) vr(1)
    by (auto simp: Let_def visit_all_def simp del: Contains.simps split: if_splits)
  have sub: "subseq (vl @ ?vp @ vr) (filter ?C (points (Node p pl l r bd)))"
    using vl(2) vr(2) by (auto intro!: list_emb_append_mono simp del: Contains.simps)
  have eq: "tie_free I (Node p pl l r bd) \<Longrightarrow>
      vl @ ?vp @ vr = filter ?C (points (Node p pl l r bd))"
    using vl(3) vr(3) by (simp del: Contains.simps)
  from run sub eq show ?case by blast
qed

text \<open>
  What \<open>DoBounded\<close> does visit. On an ordered tree whose planes index the coordinates of
  its points, \<open>DoBounded(fn, b)\<close> with the visitor that records every point and never stops
  runs to its end; it visits only stored points that \<open>b\<close> contains, none twice, in the order
  of the in-order walk; and it visits all of them if no stored point ties with an ancestor
  along the plane of the ancestor from the left.
\<close>

theorem DoBounded_visits:
  assumes "coordinates I coord" and "ordered I (Root t)" and "planes_fit I (Root t)"
  shows "\<exists>vs. DoBounded I visit_all (Some b) t [] = Inr (False, vs) \<and>
              subseq vs (filter (Contains I (Some b)) (points (Root t))) \<and>
              (tie_free I (Root t) \<longrightarrow> vs = filter (Contains I (Some b)) (points (Root t)))"
proof (cases "Root t = nil")
  case True
  then show ?thesis by (simp add: DoBounded_def)
next
  case False
  then show ?thesis
    using doBounded_visits [OF assms(1) False assms(2,3), of b 0 "[]"]
    by (simp add: DoBounded_def del: Contains.simps)
qed

lemma planes6: "planes_fit plane_points tree6"
  by (simp add: tree6_def plane_points_def)

lemma ties6: "tie_free plane_points tree6"
  by (simp add: tree6_def plane_points_def coord2_def)

lemma DoBounded6:
  "DoBounded plane_points visit_all (Some (P2 False 4 1, P2 False 8 5)) \<lparr>Root = tree6, Count = 6\<rparr> []
     = Inr (False, [P2 True 7 2, P2 True 8 1, P2 True 5 4])"
  by (simp add: DoBounded_def visit_all_def tree6_def plane_points_def coord2_def Let_def
      upto.simps)

lemma filter6:
  "filter (Contains plane_points (Some (P2 False 4 1, P2 False 8 5))) (points tree6)
     = [P2 True 7 2, P2 True 8 1, P2 True 5 4]"
  by (simp add: tree6_def plane_points_def coord2_def upto.simps)

theorem DoBounded_visits_witness:
  "coordinates plane_points coord2 \<and>
   ordered plane_points (Root \<lparr>Root = tree6, Count = 6\<rparr>) \<and>
   planes_fit plane_points (Root \<lparr>Root = tree6, Count = 6\<rparr>) \<and>
   tie_free plane_points (Root \<lparr>Root = tree6, Count = 6\<rparr>) \<and>
   DoBounded plane_points visit_all (Some (P2 False 4 1, P2 False 8 5))
       \<lparr>Root = tree6, Count = 6\<rparr> []
     = Inr (False, [P2 True 7 2, P2 True 8 1, P2 True 5 4]) \<and>
   filter (Contains plane_points (Some (P2 False 4 1, P2 False 8 5))) (points tree6)
     = [P2 True 7 2, P2 True 8 1, P2 True 5 4]"
proof -
  have h2: "ordered plane_points (Root \<lparr>Root = tree6, Count = 6\<rparr>)"
    using ordered6 by simp
  have h3: "planes_fit plane_points (Root \<lparr>Root = tree6, Count = 6\<rparr>)"
    using planes6 by simp
  have h4: "tie_free plane_points (Root \<lparr>Root = tree6, Count = 6\<rparr>)"
    using ties6 by simp
  from DoBounded_visits [OF plane_coordinates h2 h3, of "(P2 False 4 1, P2 False 8 5)"] h4
  have "filter (Contains plane_points (Some (P2 False 4 1, P2 False 8 5))) (points tree6)
     = [P2 True 7 2, P2 True 8 1, P2 True 5 4]"
    unfolding DoBounded6 by (simp del: Contains.simps)
  then show ?thesis
    using plane_coordinates h2 h3 h4 DoBounded6 by simp
qed

subsection \<open>Traversal within a bounding volume\<close>

text \<open>
  C3. The claim is that \<open>DoBounded(fn, b)\<close> calls the visitor on exactly the stored points
  that \<open>b\<close> contains. The code does not: \<open>doBounded\<close> enters the left subtree only when the
  low corner of \<open>b\<close> is strictly below the point of the node along the plane, although
  points that tie with the node along the plane are stored on the left. Here the tree
  holds \<open>(5, 1)\<close> and, left of it, \<open>(5, 2)\<close>; the volume from \<open>(5, 0)\<close> to \<open>(5, 3)\<close> contains
  both, and only \<open>(5, 1)\<close> is visited.
\<close>

theorem DoBounded_misses_tie:
  "Inserts plane_points \<lparr>Root = nil, Count = 0\<rparr> [(P2 False 5 1, False), (P2 False 5 2, False)]
     = Inr ties2 \<and>
   DoBounded plane_points visit_all (Some (P2 False 5 0, P2 False 5 3)) ties2 []
     = Inr (False, [P2 False 5 1]) \<and>
   filter (Contains plane_points (Some (P2 False 5 0, P2 False 5 3))) (points (Root ties2))
     = [P2 False 5 2, P2 False 5 1]"
  by (simp add: Insert_def DoBounded_def visit_all_def ties2_def plane_points_def coord2_def
      go_rem_def Let_def upto.simps)

subsection \<open>The argument \<open>bounding\<close> of \<open>Insert\<close>\<close>

text \<open>
  C8. On a tree that is not empty \<open>Insert\<close> ignores its argument \<open>bounding\<close>:
  \<open>Insert(c, true)\<close> and \<open>Insert(c, false)\<close> yield the same tree, and either is the insertion
  whose \<open>bounding\<close> says whether the root holds a bounding volume.
\<close>

theorem Insert_ignores_bounding:
  "Root t \<noteq> nil \<Longrightarrow>
     Insert I t c True = Insert I t c False \<and>
     Insert I t c bounding = Insert I t c (Bounding (Root t) \<noteq> None)"
  by (simp add: Insert_def)

theorem Insert_ignores_bounding_witness:
  "Root \<lparr>Root = Node (P2 True 1 1) 0 nil nil None, Count = 1\<rparr> \<noteq> nil \<and>
   Insert plane_points \<lparr>Root = Node (P2 True 1 1) 0 nil nil None, Count = 1\<rparr> (P2 True 2 2) True
     = Inr \<lparr>Root = Node (P2 True 1 1) 0 nil (Node (P2 True 2 2) 1 nil nil None) None,
            Count = 2\<rparr> \<and>
   Insert plane_points \<lparr>Root = Node (P2 True 1 1) 0 nil nil None, Count = 1\<rparr> (P2 True 2 2) False
     = Inr \<lparr>Root = Node (P2 True 1 1) 0 nil (Node (P2 True 2 2) 1 nil nil None) None,
            Count = 2\<rparr>"
  using Insert_ignores_bounding
    [of "\<lparr>Root = Node (P2 True 1 1) 0 nil nil None, Count = 1\<rparr>" plane_points "P2 True 2 2" True]
  by (simp add: Insert_def plane_points_def go_rem_def coord2_def)

subsection \<open>Insertion of a point without the method \<open>Extend\<close>\<close>

lemma Inserts_bounded2:
  "Inserts plane_points \<lparr>Root = nil, Count = 0\<rparr> [(P2 True 1 1, True), (P2 True 2 2, True)]
     = Inr bounded2"
  by (simp add: Insert_def plane_points_def coord2_def go_rem_def bounded2_def Let_def)

lemma Insert_torn3: "Insert plane_points bounded2 (P2 False 5 5) True = Inr torn3"
  by (simp add: Insert_def plane_points_def coord2_def go_rem_def bounded2_def torn3_def Let_def)

text \<open>
  C4 as it is stated fails. Two points with the method \<open>Extend\<close> are inserted into the empty
  tree, then a point without it: only the bounding volume of the root is cleared, the one
  of the second node stays, under a root that has none.
\<close>

theorem Insert_clears_every_bound_counterexample:
  "Inserts plane_points \<lparr>Root = nil, Count = 0\<rparr> [(P2 True 1 1, True), (P2 True 2 2, True)]
     = Inr bounded2 \<and>
   Root bounded2 \<noteq> nil \<and> Bounding (Root bounded2) \<noteq> None \<and>
   Extender plane_points (P2 False 5 5) = None \<and>
   Insert plane_points bounded2 (P2 False 5 5) True = Inr torn3 \<and>
   \<not> unbounded (Root torn3) \<and> \<not> not_torn (Root torn3)"
  using Inserts_bounded2 Insert_torn3
  by (simp add: bounded2_def torn3_def plane_points_def)

lemma insert_node_volumes:
  "insert_node I n c d = Inr n' \<Longrightarrow> volumes n' = volumes n"
proof (induction n arbitrary: d n')
  case nil
  then show ?case by auto
next
  case (Node p pl l r b)
  then show ?case
    by (auto split: sum.splits if_splits)
qed

lemma insert_node_root:
  "insert_node I n c d = Inr n' \<Longrightarrow> n \<noteq> nil \<Longrightarrow>
     n' \<noteq> nil \<and> Bounding n' = Bounding n \<and> Point n' = Point n \<and> Plane n' = Plane n"
  by (cases n) (auto split: sum.splits if_splits)

text \<open>
  C4, as amended. On a tree that is not empty, the insertion of a point without the
  method \<open>Extend\<close> (and with a number of dimensions other than zero) returns; afterwards
  the root holds no bounding volume, and the bounding volumes of the other nodes are
  those of before the insertion, none cleared and none added.
\<close>

theorem Insert_unmarks_root:
  assumes "Root t \<noteq> nil" and "Extender I c = None" and "Dims I c \<noteq> 0"
  shows "\<exists>t'. Insert I t c bounding = Inr t' \<and> Root t' \<noteq> nil \<and>
              Bounding (Root t') = None \<and>
              volumes (Root t') = volumes (Left (Root t)) @ volumes (Right (Root t))"
proof -
  obtain p pl l r b where root: "Root t = Node p pl l r b"
    using assms(1) by (cases "Root t") auto
  obtain n' where n': "insert_node I (Node p pl l r None) c 0 = Inr n'"
    using insert_node_total [OF assms(3)] by blast
  have "Insert I t c bounding = Inr \<lparr>Root = n', Count = Count t + 1\<rparr>"
    using assms(2) root n' by (simp add: Insert_def)
  moreover have "n' \<noteq> nil \<and> Bounding n' = None"
    using insert_node_root [OF n'] by simp
  moreover have "volumes n' = volumes l @ volumes r"
    using insert_node_volumes [OF n'] by simp
  ultimately show ?thesis
    using root by simp
qed

theorem Insert_unmarks_root_witness:
  "Root bounded2 \<noteq> nil \<and> Extender plane_points (P2 False 5 5) = None \<and>
   Dims plane_points (P2 False 5 5) \<noteq> 0 \<and>
   Insert plane_points bounded2 (P2 False 5 5) True = Inr torn3 \<and>
   Root torn3 \<noteq> nil \<and> Bounding (Root torn3) = None \<and>
   volumes (Root torn3) = [(P2 True 2 2, P2 True 2 2)] \<and>
   volumes (Left (Root bounded2)) @ volumes (Right (Root bounded2)) = [(P2 True 2 2, P2 True 2 2)]"
proof -
  have h1: "Root bounded2 \<noteq> nil"
    by (simp add: bounded2_def)
  have h2: "Extender plane_points (P2 False 5 5) = None"
    by (simp add: plane_points_def)
  have h3: "Dims plane_points (P2 False 5 5) \<noteq> 0"
    by (simp add: plane_points_def)
  from Insert_unmarks_root [OF h1 h2 h3, of True]
  have "Root torn3 \<noteq> nil \<and> Bounding (Root torn3) = None \<and>
        volumes (Root torn3) = volumes (Left (Root bounded2)) @ volumes (Right (Root bounded2))"
    unfolding Insert_torn3 by simp
  moreover have "volumes (Left (Root bounded2)) @ volumes (Right (Root bounded2))
      = [(P2 True 2 2, P2 True 2 2)]"
    by (simp add: bounded2_def)
  ultimately show ?thesis
    using h1 h2 h3 Insert_torn3 by simp
qed

subsection \<open>Bounding volumes under construction and insertion\<close>

lemma unbounded_bounds_hold: "unbounded n \<Longrightarrow> bounds_hold I n"
  by (induction n) auto

lemma build_unbounded: "build I pivot ps pl = Inr n \<Longrightarrow> unbounded n"
proof (induction I pivot ps pl arbitrary: n rule: build.induct)
  case (1 I pivot ps plane)
  show ?case
  proof (cases "ps = []")
    case True
    with "1.prems" show ?thesis by (subst (asm) build.simps) auto
  next
    case False
    obtain ps' piv where pp: "pivot ps plane = (ps', piv)"
      by (cases "pivot ps plane")
    show ?thesis
    proof (cases "length ps' \<noteq> length ps \<or> piv < 0 \<or> int (length ps') \<le> piv")
      case True
      with "1.prems" False pp show ?thesis by (subst (asm) build.simps) auto
    next
      case guard: False
      from "1.prems" False pp guard obtain np l r where
        np: "go_rem (plane + 1) (Dims I (ps' ! nat piv)) = Inr np" and
        l: "build I pivot (take (nat piv) ps') np = Inr l" and
        r: "build I pivot (drop (nat piv + 1) ps') np = Inr r" and
        n: "n = Node (ps' ! nat piv) plane l r None"
        by (subst (asm) build.simps) (auto split: sum.splits)
      show ?thesis
        using "1.IH"(1) [OF False pp [symmetric] guard np l]
          "1.IH"(2) [OF False pp [symmetric] guard np l r] n by simp
    qed
  qed
qed

lemma buildBounded_bounds:
  "pivot_partitions I pivot \<Longrightarrow> bounds_all I bounds \<Longrightarrow>
   buildBounded I pivot bounds ps pl True = Inr n \<Longrightarrow> all_bounded n \<and> bounds_hold I n"
proof (induction I pivot bounds ps pl "True" arbitrary: n rule: buildBounded.induct)
  case (1 I pivot bounds ps plane)
  note pv = "1.prems"(1) and ba = "1.prems"(2) and bld = "1.prems"(3)
  show ?case
  proof (cases "ps = []")
    case True
    with bld show ?thesis by (subst (asm) buildBounded.simps) auto
  next
    case False
    obtain ps' piv where pp: "pivot ps plane = (ps', piv)"
      by (cases "pivot ps plane")
    have post: "mset ps' = mset ps" "0 \<le> piv" "piv < int (length ps')"
      using pv [unfolded pivot_partitions_def, rule_format, OF False, of plane]
      unfolding pp by simp_all
    have len: "length ps' = length ps"
      using post(1) by (metis size_mset)
    have guard: "\<not> (length ps' \<noteq> length ps \<or> piv < 0 \<or> int (length ps') \<le> piv)"
      using len post by simp
    from bld False pp guard obtain np l r where
      np: "go_rem (plane + 1) (Dims I (ps' ! nat piv)) = Inr np" and
      l: "buildBounded I pivot bounds (take (nat piv) ps') np True = Inr l" and
      r: "buildBounded I pivot bounds (drop (nat piv + 1) ps') np True = Inr r" and
      n: "n = Node (ps' ! nat piv) plane l r (bounds ps')"
      by (subst (asm) buildBounded.simps) (auto split: sum.splits simp: Let_def)
    have il: "all_bounded l \<and> bounds_hold I l"
      using "1.hyps"(1) [OF False pp [symmetric] guard np _ pv ba l] by simp
    have ir: "all_bounded r \<and> bounds_hold I r"
      using "1.hyps"(2) [OF False pp [symmetric] guard np _ l pv ba r] by simp
    have "mset (points n) = mset ps"
      using buildBounded_points_ordered [OF pv bld] by simp
    then have pts: "set (points n) = set ps'"
      using post(1) by (metis set_mset_mset)
    have "ps' \<noteq> []"
      using len False by auto
    then obtain b where b: "bounds ps' = Some b" "\<forall>p \<in> set ps'. Contains I (Some b) p"
      using ba unfolding bounds_all_def by blast
    have "\<forall>x \<in> set (points (Node (ps' ! nat piv) plane l r (bounds ps'))). Contains I (bounds ps') x"
      using pts b n by simp
    then show ?thesis
      using n il ir b(1) by simp
  qed
qed

lemma insert_node_unbounded:
  "insert_node I n c d = Inr n' \<Longrightarrow> unbounded n \<Longrightarrow> unbounded n'"
proof (induction n arbitrary: d n')
  case nil
  then show ?case by auto
next
  case (Node p pl l r b)
  then show ?case
    by (auto split: sum.splits if_splits)
qed

lemma insertBounded_bounds:
  assumes ex: "extends I" and ext: "Extender I c = Some ext"
  shows "insertBounded I n c ext d True = Inr n' \<Longrightarrow> all_bounded n \<Longrightarrow> bounds_hold I n \<Longrightarrow>
           all_bounded n' \<and> bounds_hold I n'"
proof (induction n arbitrary: d n')
  case nil
  have "Contains I (Some (Clone I c, Clone I c)) c"
    using ex ext unfolding extends_def by blast
  with nil show ?case by auto
next
  case (Node p pl l r b)
  obtain b0 where b0: "b = Some b0"
    using Node.prems(2) by auto
  obtain b' where b': "ext (Some b0) = Some b'" "Contains I (Some b') c"
    "\<And>x. Contains I (Some b0) x \<Longrightarrow> Contains I (Some b') x"
    using ex ext unfolding extends_def by blast
  obtain d' where d': "go_rem (pl + 1) (Dims I c) = Inr d'"
    using Node.prems(1) by (auto split: sum.splits simp: Let_def)
  have old: "\<forall>x \<in> set (points (Node p pl l r b)). Contains I (Some b') x"
    using Node.prems(3) b0 b'(3) by simp
  show ?case
  proof (cases "Compare I c p pl \<le> 0")
    case True
    with Node.prems(1) d' b0 b'(1) obtain l' where
      l': "insertBounded I l c ext d' True = Inr l'" and n': "n' = Node p pl l' r (Some b')"
      by (auto split: sum.splits simp: Let_def)
    have "all_bounded l' \<and> bounds_hold I l'"
      using Node.IH(1) [OF l'] Node.prems(2,3) by simp
    moreover have "set (points l') = insert c (set (points l))"
      using insertBounded_points [OF l'] .
    ultimately show ?thesis
      using n' old b'(2) Node.prems(2,3) by auto
  next
    case False
    with Node.prems(1) d' b0 b'(1) obtain r' where
      r': "insertBounded I r c ext d' True = Inr r'" and n': "n' = Node p pl l r' (Some b')"
      by (auto split: sum.splits simp: Let_def)
    have "all_bounded r' \<and> bounds_hold I r'"
      using Node.IH(2) [OF r'] Node.prems(2,3) by simp
    moreover have "set (points r') = insert c (set (points r))"
      using insertBounded_points [OF r'] .
    ultimately show ?thesis
      using n' old b'(2) Node.prems(2,3) by auto
  qed
qed

lemma consistent_bounds_hold: "consistent I n \<Longrightarrow> bounds_hold I n"
  unfolding consistent_def using unbounded_bounds_hold by blast

lemma unbounded_clear [simp]: "unbounded n \<Longrightarrow> clear_Bounding n = n"
  by (cases n) auto

lemma Insert_consistent:
  assumes ex: "extends I"
    and step: "Extender I c \<noteq> None \<or> Root t = nil \<or> Bounding (Root t) = None"
    and ins: "Insert I t c bounding = Inr t'"
    and con: "consistent I (Root t)"
  shows "consistent I (Root t')"
proof (cases "Root t = nil \<or> Bounding (Root t) = None")
  case True
  then have ub: "unbounded (Root t)"
    using con unfolding consistent_def by (cases "Root t") auto
  show ?thesis
  proof (cases "Extender I c")
    case None
    with ins ub obtain n' where "insert_node I (Root t) c 0 = Inr n'" "Root t' = n'"
      by (auto simp: Insert_def split: sum.splits if_splits)
    then show ?thesis
      using insert_node_unbounded [of I "Root t" c 0 n'] ub by (simp add: consistent_def)
  next
    case (Some ext)
    show ?thesis
    proof (cases "Root t = nil \<and> bounding")
      case True
      with ins Some have "Root t' = Node c 0 nil nil (Some (Clone I c, Clone I c))"
        by (auto simp: Insert_def)
      moreover have "Contains I (Some (Clone I c, Clone I c)) c"
        using ex Some unfolding extends_def by blast
      ultimately show ?thesis
        unfolding consistent_def by simp
    next
      case False
      with ins Some \<open>Root t = nil \<or> Bounding (Root t) = None\<close>
      obtain n' where "insert_node I (Root t) c 0 = Inr n'" "Root t' = n'"
        by (auto simp: Insert_def split: sum.splits if_splits)
      then show ?thesis
        using insert_node_unbounded [of I "Root t" c 0 n'] ub by (simp add: consistent_def)
    qed
  qed
next
  case False
  then have root: "Root t \<noteq> nil" "Bounding (Root t) \<noteq> None"
    by simp_all
  then have ab: "all_bounded (Root t)" "bounds_hold I (Root t)"
    using con unfolding consistent_def by (cases "Root t"; auto)+
  from step root obtain ext where ext: "Extender I c = Some ext"
    by auto
  with ins root obtain n' where "insertBounded I (Root t) c ext 0 True = Inr n'" "Root t' = n'"
    by (auto simp: Insert_def split: sum.splits)
  then show ?thesis
    using insertBounded_bounds [OF ex ext _ ab, of 0 n'] by (simp add: consistent_def)
qed

lemma Inserts_consistent:
  "extends I \<Longrightarrow> rebounding I t cs \<Longrightarrow> Inserts I t cs = Inr t' \<Longrightarrow> consistent I (Root t) \<Longrightarrow>
     consistent I (Root t')"
proof (induction cs arbitrary: t)
  case Nil
  then show ?case by simp
next
  case (Cons a cs)
  obtain c bd where a: "a = (c, bd)" by (cases a)
  from Cons.prems(3) a obtain t1 where
    t1: "Insert I t c bd = Inr t1" and rest: "Inserts I t1 cs = Inr t'"
    by (auto split: sum.splits)
  have step: "Extender I c \<noteq> None \<or> Root t = nil \<or> Bounding (Root t) = None"
    and reb: "rebounding I t1 cs"
    using Cons.prems(2) a t1 by simp_all
  show ?case
    using Cons.IH [OF Cons.prems(1) reb rest]
      Insert_consistent [OF Cons.prems(1) step t1 Cons.prems(4)] by simp
qed

lemma New_consistent:
  assumes pv: "pivot_partitions I pivot"
    and ba: "\<forall>bounds. bounder = Some bounds \<longrightarrow> bounds_all I bounds"
    and new: "New I pivot bounder ps bounding = Inr t"
  shows "consistent I (Root t)"
proof (cases "bounder \<noteq> None \<and> bounding")
  case True
  then obtain bounds where b: "bounder = Some bounds" by auto
  with new True obtain n where "buildBounded I pivot bounds ps 0 True = Inr n" "Root t = n"
    by (auto simp: New_def split: sum.splits)
  then show ?thesis
    using buildBounded_bounds [OF pv, of bounds ps 0 n] ba b by (simp add: consistent_def)
next
  case False
  with new obtain n where "build I pivot ps 0 = Inr n" "Root t = n"
    by (auto simp: New_def split: sum.splits option.splits if_splits)
  then show ?thesis
    using build_unbounded [of I pivot ps 0 n] by (simp add: consistent_def)
qed

text \<open>
  C5, as amended. In every tree that \<open>New\<close> builds and in the tree after every sequence of
  insertions into it during which no point without the method \<open>Extend\<close> is inserted while
  the root holds a bounding volume, every node that holds a bounding volume has one that
  contains every point of the subtree of the node. This supposes that \<open>Pivot\<close> keeps its
  postcondition, that \<open>Bounds\<close> returns a volume containing the points of the source, and
  that \<open>Extend\<close> returns a volume containing the point and whatever the given volume
  contained. The insertions return (no point having zero dimensions).
\<close>

theorem bounds_invariant:
  assumes "pivot_partitions I pivot" and "extends I"
    and "\<forall>bounds. bounder = Some bounds \<longrightarrow> bounds_all I bounds"
    and "\<forall>p. Dims I p \<noteq> 0"
    and "New I pivot bounder ps bounding = Inr t0"
    and "rebounding I t0 cs"
  shows "\<exists>t. Inserts I t0 cs = Inr t \<and> bounds_hold I (Root t0) \<and> bounds_hold I (Root t)"
proof -
  obtain t where t: "Inserts I t0 cs = Inr t"
    using Inserts_total [OF assms(4)] by blast
  have c0: "consistent I (Root t0)"
    using New_consistent [OF assms(1,3,5)] .
  have "consistent I (Root t)"
    using Inserts_consistent [OF assms(2,6) t c0] .
  with c0 t show ?thesis
    using consistent_bounds_hold by blast
qed

lemma Contains_plane:
  "Contains plane_points (Some (lo, hi)) p \<longleftrightarrow>
     px lo \<le> px p \<and> px p \<le> px hi \<and> py lo \<le> py p \<and> py p \<le> py hi"
proof -
  have "[0 .. Dims plane_points p - 1] = [0, 1]"
    by (simp add: plane_points_def upto.simps)
  then show ?thesis
    by (auto simp: plane_points_def coord2_def)
qed

lemma plane_extends: "extends plane_points"
  unfolding extends_def
proof (intro allI impI)
  fix c :: point2 and ext and b :: "point2 Bounding"
  assume "Extender plane_points c = Some ext"
  then have ext: "ext = Extend2 c"
    by (simp add: plane_points_def split: if_splits)
  obtain lo hi where b: "b = (lo, hi)" by (cases b)
  have 1: "Contains plane_points (Some (Clone plane_points c, Clone plane_points c)) c"
  proof -
    have "Clone plane_points c = c"
      by (simp add: plane_points_def)
    then show ?thesis
      by (simp add: Contains_plane del: Contains.simps)
  qed
  have 2: "\<exists>b'. ext (Some b) = Some b' \<and> Contains plane_points (Some b') c \<and>
             (\<forall>p. Contains plane_points (Some b) p \<longrightarrow> Contains plane_points (Some b') p)"
    unfolding ext b
    by (auto simp: Contains_plane min_le_iff_disj le_max_iff_disj simp del: Contains.simps)
  from 1 2 show "Contains plane_points (Some (Clone plane_points c, Clone plane_points c)) c \<and>
       (\<exists>b'. ext (Some b) = Some b' \<and> Contains plane_points (Some b') c \<and>
             (\<forall>p. Contains plane_points (Some b) p \<longrightarrow> Contains plane_points (Some b') p))"
    by blast
qed

lemma fold_Extend2:
  "\<exists>b'. fold Extend2 ps (Some b) = Some b' \<and>
        (\<forall>p. p \<in> set ps \<or> Contains plane_points (Some b) p \<longrightarrow> Contains plane_points (Some b') p)"
proof (induction ps arbitrary: b)
  case Nil
  then show ?case by simp
next
  case (Cons c ps)
  obtain lo hi where b: "b = (lo, hi)" by (cases b)
  obtain b1 where b1: "Extend2 c (Some b) = Some b1"
    "Contains plane_points (Some b1) c"
    "\<And>p. Contains plane_points (Some b) p \<Longrightarrow> Contains plane_points (Some b1) p"
    unfolding b
    by (auto simp: Contains_plane min_le_iff_disj le_max_iff_disj simp del: Contains.simps)
  obtain b' where b': "fold Extend2 ps (Some b1) = Some b'"
    "\<And>p. p \<in> set ps \<or> Contains plane_points (Some b1) p \<Longrightarrow> Contains plane_points (Some b') p"
    using Cons.IH [of b1] by blast
  show ?case
    using b1 b' by (auto simp del: Contains.simps)
qed

lemma plane_bounds_all: "bounds_all plane_points bounds2"
  unfolding bounds_all_def
proof (intro allI impI)
  fix ps :: "point2 list"
  assume "ps \<noteq> []"
  then obtain c cs where ps: "ps = c # cs" by (cases ps) auto
  have c: "Contains plane_points (Some (c, c)) c"
    by (simp add: Contains_plane del: Contains.simps)
  obtain b' where "fold Extend2 cs (Some (c, c)) = Some b'"
    "\<And>p. p \<in> set cs \<or> Contains plane_points (Some (c, c)) p \<Longrightarrow> Contains plane_points (Some b') p"
    using fold_Extend2 [of cs "(c, c)"] by blast
  with c show "\<exists>b. bounds2 ps = Some b \<and> (\<forall>p \<in> set ps. Contains plane_points (Some b) p)"
    by (auto simp: bounds2_def ps simp del: Contains.simps)
qed

lemma Inserts_torn3:
  "Inserts plane_points \<lparr>Root = nil, Count = 0\<rparr>
     [(P2 True 1 1, True), (P2 True 2 2, True), (P2 False 5 5, True)] = Inr torn3"
  by (simp add: Insert_def plane_points_def coord2_def go_rem_def torn3_def Let_def)

text \<open>
  C5 as it is stated fails. After the same three insertions the point \<open>(5, 5)\<close> is stored
  below the node of \<open>(2, 2)\<close>, whose bounding volume is still the box of \<open>(2, 2)\<close> alone: the
  insertion that cleared the bounding volume of the root went down by \<open>insert\<close>, which
  extends nothing.
\<close>

theorem bounds_invariant_counterexample:
  "New plane_points pivot2 (Some bounds2) [] True = Inr \<lparr>Root = nil, Count = 0\<rparr> \<and>
   Inserts plane_points \<lparr>Root = nil, Count = 0\<rparr>
     [(P2 True 1 1, True), (P2 True 2 2, True), (P2 False 5 5, True)] = Inr torn3 \<and>
   Right (Root torn3)
     = Node (P2 True 2 2) 1 nil (Node (P2 False 5 5) 0 nil nil None)
         (Some (P2 True 2 2, P2 True 2 2)) \<and>
   \<not> Contains plane_points (Some (P2 True 2 2, P2 True 2 2)) (P2 False 5 5) \<and>
   \<not> bounds_hold plane_points (Root torn3)"
  using Inserts_torn3
  by (simp add: torn3_def Contains_plane New_def buildBounded.simps del: Contains.simps)

lemma New_bounded3:
  "New plane_points pivot2 (Some bounds2) [P2 True 2 3, P2 True 5 4, P2 True 1 6] True
     = Inr bounded3"
  by (simp add: New_def buildBounded.simps pivot2_def bounds2_def plane_points_def coord2_def
      go_rem_def bounded3_def Let_def)

lemma Insert_bounded4: "Insert plane_points bounded3 (P2 True 0 9) False = Inr bounded4"
  by (simp add: Insert_def plane_points_def coord2_def go_rem_def bounded3_def bounded4_def
      Let_def)

theorem bounds_invariant_witness:
  "pivot_partitions plane_points pivot2 \<and> extends plane_points \<and>
   bounds_all plane_points bounds2 \<and> (\<forall>p. Dims plane_points p \<noteq> 0) \<and>
   New plane_points pivot2 (Some bounds2) [P2 True 2 3, P2 True 5 4, P2 True 1 6] True
     = Inr bounded3 \<and>
   rebounding plane_points bounded3 [(P2 True 0 9, False)] \<and>
   Inserts plane_points bounded3 [(P2 True 0 9, False)] = Inr bounded4 \<and>
   bounds_hold plane_points (Root bounded3) \<and> bounds_hold plane_points (Root bounded4)"
proof -
  have h3: "\<forall>bounds. Some bounds2 = Some bounds \<longrightarrow> bounds_all plane_points bounds"
    using plane_bounds_all by simp
  have h4: "\<forall>p. Dims plane_points p \<noteq> 0"
    by (simp add: plane_points_def)
  have h6: "rebounding plane_points bounded3 [(P2 True 0 9, False)]"
    by (simp add: Insert_bounded4) (simp add: plane_points_def)
  have ins: "Inserts plane_points bounded3 [(P2 True 0 9, False)] = Inr bounded4"
    by (simp add: Insert_bounded4)
  from bounds_invariant [OF pivot2_partitions plane_extends h3 h4 New_bounded3 h6]
  have "bounds_hold plane_points (Root bounded3) \<and> bounds_hold plane_points (Root bounded4)"
    unfolding ins by simp
  then show ?thesis
    using pivot2_partitions plane_extends plane_bounds_all h4 New_bounded3 h6 ins by simp
qed

subsection \<open>\<open>Tree.Contains\<close> on the empty tree\<close>

text \<open>
  C9. On the empty tree \<open>Tree.Contains\<close> panics with a nil pointer dereference, whatever
  its argument; on a tree that is not empty and whose root holds no bounding volume it
  returns true.
\<close>

theorem Tree_Contains_empty_panics:
  "(Root t = nil \<longrightarrow> Tree_Contains I t c = Inl NilDereference) \<and>
   (Root t \<noteq> nil \<and> Bounding (Root t) = None \<longrightarrow> Tree_Contains I t c = Inr True)"
  by (cases "Root t") (simp_all add: Tree_Contains_def)

theorem Tree_Contains_empty_panics_witness:
  "Root \<lparr>Root = nil, Count = 0\<rparr> = (nil :: point2 node) \<and>
   Tree_Contains plane_points \<lparr>Root = nil, Count = 0\<rparr> (P2 False 9 2) = Inl NilDereference \<and>
   Root \<lparr>Root = Node (P2 True 1 1) 0 nil nil None, Count = 1\<rparr> \<noteq> nil \<and>
   Bounding (Root \<lparr>Root = Node (P2 True 1 1) 0 nil nil None, Count = 1\<rparr>) = None \<and>
   Tree_Contains plane_points \<lparr>Root = Node (P2 True 1 1) 0 nil nil None, Count = 1\<rparr> (P2 False 9 2)
     = Inr True"
  using Tree_Contains_empty_panics [of "\<lparr>Root = nil, Count = 0\<rparr>" plane_points "P2 False 9 2"]
    Tree_Contains_empty_panics
      [of "\<lparr>Root = Node (P2 True 1 1) 0 nil nil None, Count = 1\<rparr>" plane_points "P2 False 9 2"]
  by simp

end
